theory Spec2Isabelle
  imports Complex_Main "HOL-Library.Sublist"
begin

section \<open>JavaScript values used by the reader\<close>

text \<open>
  A JavaScript string is modelled as a \<^typ>\<open>string\<close>; a value that may be
  \<^verbatim>\<open>undefined\<close> or \<^verbatim>\<open>null\<close> is an option. The operator \<^verbatim>\<open>a || b\<close> on
  such strings yields \<^verbatim>\<open>a\<close> unless it is falsy (absent or the empty string).
\<close>

definition truthy :: "string option \<Rightarrow> bool" where
  "truthy v = (case v of None \<Rightarrow> False | Some s \<Rightarrow> s \<noteq> [])"

definition orElse :: "string option \<Rightarrow> string option \<Rightarrow> string option" where
  "orElse a b = (if truthy a then a else b)"

definition orDefault :: "string option \<Rightarrow> string \<Rightarrow> string" where
  "orDefault a d = (case a of None \<Rightarrow> d | Some s \<Rightarrow> if s = [] then d else s)"

section \<open>RSS ingestion: the identity of a fetched item\<close>

text \<open>
  \<^verbatim>\<open>fetchFeed\<close> maps every item of the parsed feed to a \<^verbatim>\<open>ParsedArticle\<close>. The
  fields of the item that decide the article's identity and title are kept; the value
  of \<^verbatim>\<open>crypto.randomUUID()\<close> drawn for the item is an argument.
\<close>

record feedItem =
  itemGuid :: "string option"
  itemLink :: "string option"
  itemTitle :: "string option"

record parsedArticle =
  guid :: string
  title :: string
  link :: "string option"

definition parseItem :: "string \<Rightarrow> feedItem \<Rightarrow> parsedArticle" where
  "parseItem uuid item =
     \<lparr> guid = orDefault (orElse (orElse (itemGuid item) (itemLink item)) (itemTitle item)) uuid,
       title = orDefault (itemTitle item) ''Untitled'',
       link = itemLink item \<rparr>"

text \<open>
  \<^verbatim>\<open>feed.items.map(...)\<close>: the identifier drawn for the item at position \<open>k\<close> is
  \<open>uuidOf k\<close>.
\<close>

definition parseItems :: "(nat \<Rightarrow> string) \<Rightarrow> feedItem list \<Rightarrow> parsedArticle list" where
  "parseItems uuidOf items = map (\<lambda>(k, item). parseItem (uuidOf k) item) (enumerate 0 items)"

section \<open>Persistent storage: the catalog and the session documents\<close>

text \<open>
  The storage class keeps \<^verbatim>\<open>library.json\<close> and \<^verbatim>\<open>session.json\<close>; each accessor reads
  the whole document and each mutator writes it back. The state of the two documents is
  a record; a \<^verbatim>\<open>Record<string, ReadingPosition>\<close> is a map.
\<close>

datatype bookFormat = Epub | Pdf

record libraryBook =
  bookId :: string
  bookFile :: string
  bookTitle :: string
  bookAuthor :: string
  format :: bookFormat
  coverUrl :: "string option"
  description :: "string option"
  chapterCount :: "nat option"
  addedAt :: string
  bookLastRead :: "string option"

record collection =
  collectionId :: string
  collectionName :: string
  collectionBookIds :: "string list"

record libraryData =
  version :: nat
  bookPath :: string
  books :: "libraryBook list"
  collections :: "collection list"

record readingPosition =
  chapterIndex :: int
  scrollPosition :: real
  lastRead :: string

record sessionData =
  lastBook :: "string option"
  positions :: "string \<rightharpoonup> readingPosition"

record storage =
  library :: libraryData
  session :: sessionData

definition getPosition :: "storage \<Rightarrow> string \<Rightarrow> readingPosition option" where
  "getPosition st bid = positions (session st) bid"

definition savePosition :: "string \<Rightarrow> readingPosition \<Rightarrow> storage \<Rightarrow> storage" where
  "savePosition bid pos st =
     st\<lparr> session := (session st)\<lparr> positions := (positions (session st))(bid \<mapsto> pos),
                                    lastBook := Some bid \<rparr> \<rparr>"

text \<open>
  \<^verbatim>\<open>xs.find(p)\<close> followed by assignments to the fields of the object found changes the
  first element that satisfies \<^verbatim>\<open>p\<close>, in place.
\<close>

fun updateFirst :: "('a \<Rightarrow> bool) \<Rightarrow> ('a \<Rightarrow> 'a) \<Rightarrow> 'a list \<Rightarrow> 'a list" where
  "updateFirst P f [] = []"
| "updateFirst P f (x # xs) = (if P x then f x # xs else x # updateFirst P f xs)"

section \<open>Opening a book: \<^verbatim>\<open>loadBookTool\<close>\<close>

text \<open>
  The book's identifier and its current chapter count come from hashing and opening the
  file; \<open>now\<close> is the time stamp of the call. The tool returns the last position it
  reports (chapter index and scroll position) and leaves the storage updated.
\<close>

definition loadBookTool ::
  "string \<Rightarrow> nat \<Rightarrow> string \<Rightarrow> storage \<Rightarrow> (int \<times> real) option \<times> storage" where
  "loadBookTool bid count now st =
     (let (lastPosition, st1) =
            (case getPosition st bid of
               None \<Rightarrow> (None, st)
             | Some pos \<Rightarrow>
                 if chapterIndex pos \<ge> int count
                 then (let corrected = \<lparr> chapterIndex = 0, scrollPosition = 0,
                                          lastRead = lastRead pos \<rparr>
                       in (Some corrected, savePosition bid corrected st))
                 else (Some pos, st));
          st2 = (if \<exists>b \<in> set (books (library st1)). bookId b = bid
                 then st1\<lparr> library := (library st1)\<lparr> books :=
                        updateFirst (\<lambda>b. bookId b = bid)
                          (\<lambda>b. b\<lparr> bookLastRead := Some now, chapterCount := Some count \<rparr>)
                          (books (library st1)) \<rparr> \<rparr>
                 else st1);
          st3 = st2\<lparr> session := (session st2)\<lparr> lastBook := Some bid \<rparr> \<rparr>
      in (map_option (\<lambda>pos. (chapterIndex pos, scrollPosition pos)) lastPosition, st3))"

section \<open>Reading a chapter progressively: \<^verbatim>\<open>readChapter\<close>\<close>

text \<open>
  An extracted chapter carries the structural index it was extracted from. Offsets and
  limits are natural numbers (the schema of the tool refuses a negative offset), and
  the length of a string is its number of characters.
\<close>

record extractedChapter =
  chIndex :: nat
  chTitle :: string
  chContent :: string

text \<open>\<^verbatim>\<open>s.slice(a, b)\<close> for \<open>0 \<le> a\<close> and \<open>0 \<le> b\<close>.\<close>

definition jsSlice :: "'a list \<Rightarrow> nat \<Rightarrow> nat \<Rightarrow> 'a list" where
  "jsSlice s a b = take (b - a) (drop a s)"

record chapterRead =
  readIndex :: nat
  readTitle :: string
  readContent :: string
  totalLength :: nat
  readOffset :: nat
  readLength :: nat
  hasMore :: bool
  remaining :: int
  nextOffset :: "nat option"

datatype readError = BookNotFound | ChapterNotFound

text \<open>The part of \<^verbatim>\<open>readChapter\<close> that follows the lookup of the chapter.\<close>

definition readSlice :: "extractedChapter \<Rightarrow> nat option \<Rightarrow> nat option \<Rightarrow> chapterRead" where
  "readSlice chapter offsetArg limitArg =
     (let total = length (chContent chapter);
          off = (case offsetArg of None \<Rightarrow> 0 | Some n \<Rightarrow> n);
          defaultLimit = (if total > 50000 then 30000 else total);
          limit = (case limitArg of None \<Rightarrow> defaultLimit | Some l \<Rightarrow> l);
          contentSlice = jsSlice (chContent chapter) off (off + limit);
          endOffset = off + length contentSlice;
          more = (endOffset < total)
      in \<lparr> readIndex = chIndex chapter, readTitle = chTitle chapter,
           readContent = contentSlice, totalLength = total, readOffset = off,
           readLength = length contentSlice, hasMore = more,
           remaining = int total - int endOffset,
           nextOffset = (if more then Some endOffset else None) \<rparr>)"

text \<open>
  The first argument is the result of \<^verbatim>\<open>getExtractedBook\<close>: the chapters extracted
  from the book, or nothing when no book matches. Both failures are descriptive results,
  not exceptions.
\<close>

definition readChapter ::
  "extractedChapter list option \<Rightarrow> int \<Rightarrow> nat option \<Rightarrow> nat option \<Rightarrow> readError + chapterRead" where
  "readChapter extracted idx offsetArg limitArg =
     (case extracted of
        None \<Rightarrow> Inl BookNotFound
      | Some chapters \<Rightarrow>
          (case find (\<lambda>ch. int (chIndex ch) = idx) chapters of
             None \<Rightarrow> Inl ChapterNotFound
           | Some chapter \<Rightarrow> Inr (readSlice chapter offsetArg limitArg)))"

text \<open>\<^verbatim>\<open>ReadChapterSchema\<close>: an explicit limit lies between 1000 and 50000.\<close>

definition validLimit :: "nat option \<Rightarrow> bool" where
  "validLimit l = (case l of None \<Rightarrow> True | Some n \<Rightarrow> 1000 \<le> n \<and> n \<le> 50000)"

text \<open>
  A client that reads a chapter to its end: the call number \<open>k\<close> passes the limit
  \<open>limitOf k\<close> and, as the offset, the \<^verbatim>\<open>nextOffset\<close> the previous call returned (an
  absent offset is read as 0 by the tool), until a call reports \<^verbatim>\<open>hasMore\<close> false. The
  result is the list of the slices received; the loop has no bound of its own, so a run
  that never ends has no result.
\<close>

partial_function (option) readAll ::
  "extractedChapter list option \<Rightarrow> int \<Rightarrow> (nat \<Rightarrow> nat option) \<Rightarrow> nat \<Rightarrow> nat option
     \<Rightarrow> (readError + string list) option" where
  "readAll extracted idx limitOf k offsetArg =
     (case readChapter extracted idx offsetArg (limitOf k) of
        Inl e \<Rightarrow> Some (Inl e)
      | Inr r \<Rightarrow>
          if hasMore r
          then Option.bind (readAll extracted idx limitOf (Suc k) (nextOffset r))
                 (\<lambda>rest. Some (case rest of Inl e \<Rightarrow> Inl e
                                | Inr slices \<Rightarrow> Inr (readContent r # slices)))
          else Some (Inr [readContent r]))"

section \<open>The relational store: indexed chapter content and its full-text index\<close>

text \<open>
  The table \<^verbatim>\<open>book_content\<close> holds one row per indexed chapter and the FTS5 table
  \<^verbatim>\<open>book_content_fts\<close> mirrors it; a table is the list of its rows.
\<close>

record bookContentRow =
  rowId :: string
  rowBookId :: string
  rowChapterIndex :: nat
  rowChapterTitle :: string
  rowContent :: string
  rowContentHash :: string
  rowIndexedAt :: string
  rowBookTitle :: "string option"
  rowAuthor :: "string option"

record ftsEntry =
  ftsContent :: string
  ftsChapterTitle :: string
  ftsContentId :: string
  ftsBookId :: string

record database =
  book_content :: "bookContentRow list"
  book_content_fts :: "ftsEntry list"

subsection \<open>Full-text search: \<^verbatim>\<open>searchBookContent\<close>\<close>

text \<open>
  White space is the ASCII white space; \<^verbatim>\<open>query.split(/\s+/).filter(t => t.length > 0)\<close>
  yields the words of the query.
\<close>

definition isSpace :: "char \<Rightarrow> bool" where
  "isSpace c = (c \<in> set [CHR '' '', CHR 0x09, CHR 0x0A, CHR 0x0B, CHR 0x0C, CHR 0x0D])"

fun wordsFrom :: "string \<Rightarrow> string \<Rightarrow> string list" where
  "wordsFrom cur [] = (if cur = [] then [] else [cur])"
| "wordsFrom cur (c # cs) =
     (if isSpace c then (if cur = [] then wordsFrom [] cs else cur # wordsFrom [] cs)
      else wordsFrom (cur @ [c]) cs)"

fun joinWith :: "string \<Rightarrow> string list \<Rightarrow> string" where
  "joinWith sep [] = []"
| "joinWith sep [x] = x"
| "joinWith sep (x # y # ys) = x @ sep @ joinWith sep (y # ys)"

text \<open>Every word becomes a quoted prefix term, and the terms are joined by \<^verbatim>\<open>AND\<close>.\<close>

definition ftsTerms :: "string \<Rightarrow> string" where
  "ftsTerms query =
     joinWith '' AND ''
       (map (\<lambda>t. [CHR 0x22]
                  @ concat (map (\<lambda>c. if c = CHR 0x22 then [CHR 0x22, CHR 0x22] else [c]) t)
                  @ [CHR 0x22] @ ''*'')
            (wordsFrom [] query))"

record searchResult =
  resBookId :: string
  resBookTitle :: "string option"
  resAuthor :: "string option"
  resChapterTitle :: string
  resChapterIndex :: nat
  resContent :: string
  score :: real

text \<open>
  The \<^verbatim>\<open>SELECT\<close> statement. What FTS5 computes is the argument \<open>rank\<close>: for a match
  expression and an entry of the index, the value of \<^verbatim>\<open>bm25(book_content_fts, 10.0, 1.0)\<close>
  when the entry matches and nothing otherwise. The statement joins the index with the
  content table on the content identifier, keeps the books asked for, orders by the raw
  score (ascending) and keeps the first \<open>limit\<close> rows. Scores are real numbers.
\<close>

definition selectRows ::
  "(string \<Rightarrow> ftsEntry \<Rightarrow> real option) \<Rightarrow> database \<Rightarrow> string \<Rightarrow> string list option \<Rightarrow> nat
     \<Rightarrow> (bookContentRow \<times> real) list" where
  "selectRows rank db terms bookIds limit =
     take limit
       (sort_key snd
          (filter (\<lambda>(bc, s). case bookIds of None \<Rightarrow> True
                              | Some ids \<Rightarrow> ids = [] \<or> rowBookId bc \<in> set ids)
             [(bc, s). f \<leftarrow> book_content_fts db, bc \<leftarrow> book_content db,
                       ftsContentId f = rowId bc,
                       s \<leftarrow> (case rank terms f of None \<Rightarrow> [] | Some s \<Rightarrow> [s])]))"

text \<open>\<^verbatim>\<open>Math.max(...absScores, 1)\<close> and the division of every absolute score by it.\<close>

definition normalizeScores :: "(bookContentRow \<times> real) list \<Rightarrow> searchResult list" where
  "normalizeScores rows =
     (let absScores = map (\<lambda>r. \<bar>snd r\<bar>) rows;
          maxAbsScore = foldr max absScores 1
      in map (\<lambda>(bc, s).
            \<lparr> resBookId = rowBookId bc, resBookTitle = rowBookTitle bc, resAuthor = rowAuthor bc,
              resChapterTitle = rowChapterTitle bc, resChapterIndex = rowChapterIndex bc,
              resContent = rowContent bc, score = \<bar>s\<bar> / maxAbsScore \<rparr>) rows)"

text \<open>\<^verbatim>\<open>params.limit || 20\<close>.\<close>

definition searchLimit :: "nat option \<Rightarrow> nat" where
  "searchLimit limitArg = (case limitArg of None \<Rightarrow> 20 | Some n \<Rightarrow> if n = 0 then 20 else n)"

definition searchBookContent ::
  "(string \<Rightarrow> ftsEntry \<Rightarrow> real option) \<Rightarrow> database \<Rightarrow> string \<Rightarrow> string list option \<Rightarrow> nat option
     \<Rightarrow> searchResult list" where
  "searchBookContent rank db query bookIds limitArg =
     (let terms = ftsTerms query
      in if terms = [] then []
         else normalizeScores (selectRows rank db terms bookIds (searchLimit limitArg)))"

subsection \<open>Re-indexing a book: \<^verbatim>\<open>indexBookContent\<close>\<close>

text \<open>
  A statement that violates a constraint of the schema throws; the only constraint an
  insertion of this code can violate is the primary key of \<^verbatim>\<open>book_content\<close>.
\<close>

datatype sqlError = ConstraintPrimaryKey

definition deleteBookContent :: "string \<Rightarrow> database \<Rightarrow> database" where
  "deleteBookContent bid db =
     (let contentIds = map rowId (filter (\<lambda>r. rowBookId r = bid) (book_content db))
      in \<lparr> book_content = filter (\<lambda>r. rowBookId r \<noteq> bid) (book_content db),
           book_content_fts =
             fold (\<lambda>cid fts. filter (\<lambda>f. ftsContentId f \<noteq> cid) fts) contentIds
               (book_content_fts db) \<rparr>)"

definition insertContent :: "bookContentRow \<Rightarrow> database \<Rightarrow> sqlError + database" where
  "insertContent row db =
     (if rowId row \<in> set (map rowId (book_content db)) then Inl ConstraintPrimaryKey
      else Inr (db\<lparr> book_content := book_content db @ [row] \<rparr>))"

definition insertFts :: "ftsEntry \<Rightarrow> database \<Rightarrow> database" where
  "insertFts e db = db\<lparr> book_content_fts := book_content_fts db @ [e] \<rparr>"

text \<open>\<^verbatim>\<open>v || null\<close> for an optional string.\<close>

definition orNull :: "string option \<Rightarrow> string option" where
  "orNull v = (if truthy v then v else None)"

text \<open>
  The loop over the chapters; \<open>idOf k\<close> is the identifier \<^verbatim>\<open>generateId()\<close> returns for
  the chapter at position \<open>k\<close>.
\<close>

fun insertChapters ::
  "string \<Rightarrow> string \<Rightarrow> string \<Rightarrow> string option \<Rightarrow> string option \<Rightarrow> (nat \<Rightarrow> string) \<Rightarrow> nat
     \<Rightarrow> extractedChapter list \<Rightarrow> database \<Rightarrow> sqlError + database" where
  "insertChapters bid contentHash indexedAt bookTitleArg authorArg idOf k [] db = Inr db"
| "insertChapters bid contentHash indexedAt bookTitleArg authorArg idOf k (chapter # rest) db =
     (case insertContent
             \<lparr> rowId = idOf k, rowBookId = bid, rowChapterIndex = chIndex chapter,
               rowChapterTitle = chTitle chapter, rowContent = chContent chapter,
               rowContentHash = contentHash, rowIndexedAt = indexedAt,
               rowBookTitle = orNull bookTitleArg, rowAuthor = orNull authorArg \<rparr> db of
        Inl e \<Rightarrow> Inl e
      | Inr db1 \<Rightarrow>
          insertChapters bid contentHash indexedAt bookTitleArg authorArg idOf (Suc k) rest
            (insertFts \<lparr> ftsContent = chContent chapter, ftsChapterTitle = chTitle chapter,
                        ftsContentId = idOf k, ftsBookId = bid \<rparr> db1))"

text \<open>
  \<^verbatim>\<open>db.transaction(fn)()\<close> of the SQLite binding: the changes of \<^verbatim>\<open>fn\<close> are committed
  when it returns, and rolled back, with the exception passed on, when it throws.
\<close>

definition transaction ::
  "(database \<Rightarrow> sqlError + database) \<Rightarrow> database \<Rightarrow> (sqlError + unit) \<times> database" where
  "transaction body db =
     (case body db of Inl e \<Rightarrow> (Inl e, db) | Inr db' \<Rightarrow> (Inr (), db'))"

definition indexBookContent ::
  "string \<Rightarrow> extractedChapter list \<Rightarrow> string \<Rightarrow> string option \<Rightarrow> string option
     \<Rightarrow> (nat \<Rightarrow> string) \<Rightarrow> string \<Rightarrow> database \<Rightarrow> (sqlError + unit) \<times> database" where
  "indexBookContent bid chapters contentHash bookTitleArg authorArg idOf indexedAt db =
     transaction
       (\<lambda>d. insertChapters bid contentHash indexedAt bookTitleArg authorArg idOf 0 chapters
              (deleteBookContent bid d))
       db"

text \<open>
  The invariant of the content table: the rows of one book carry one content hash. The
  index mirrors the table when every entry of the index belongs to a row of the table
  with the same book.
\<close>

definition sameHashPerBook :: "database \<Rightarrow> bool" where
  "sameHashPerBook db =
     (\<forall>r1 \<in> set (book_content db). \<forall>r2 \<in> set (book_content db).
        rowBookId r1 = rowBookId r2 \<longrightarrow> rowContentHash r1 = rowContentHash r2)"

definition ftsMirrors :: "database \<Rightarrow> bool" where
  "ftsMirrors db =
     (\<forall>f \<in> set (book_content_fts db). \<exists>r \<in> set (book_content db).
        rowId r = ftsContentId f \<and> rowBookId r = ftsBookId f)"

text \<open>The rows and the index entries that the loop inserts for a list of chapters.\<close>

definition newRows ::
  "string \<Rightarrow> string \<Rightarrow> string \<Rightarrow> string option \<Rightarrow> string option \<Rightarrow> (nat \<Rightarrow> string) \<Rightarrow> nat
     \<Rightarrow> extractedChapter list \<Rightarrow> bookContentRow list" where
  "newRows bid contentHash indexedAt bookTitleArg authorArg idOf k chapters =
     map (\<lambda>(i, chapter).
            \<lparr> rowId = idOf i, rowBookId = bid, rowChapterIndex = chIndex chapter,
               rowChapterTitle = chTitle chapter, rowContent = chContent chapter,
               rowContentHash = contentHash, rowIndexedAt = indexedAt,
               rowBookTitle = orNull bookTitleArg, rowAuthor = orNull authorArg \<rparr>)
         (enumerate k chapters)"

definition newFts :: "string \<Rightarrow> (nat \<Rightarrow> string) \<Rightarrow> nat \<Rightarrow> extractedChapter list \<Rightarrow> ftsEntry list" where
  "newFts bid idOf k chapters =
     map (\<lambda>(i, chapter). \<lparr> ftsContent = chContent chapter, ftsChapterTitle = chTitle chapter,
                        ftsContentId = idOf i, ftsBookId = bid \<rparr>) (enumerate k chapters)"

section \<open>Numbers in titles\<close>

text \<open>The decimal numeral of a natural number, as a template literal prints it.\<close>

fun showNat :: "nat \<Rightarrow> string" where
  "showNat n = (if n < 10 then [''0123456789'' ! n]
                else showNat (n div 10) @ [''0123456789'' ! (n mod 10)])"

declare showNat.simps [simp del]

section \<open>The PDF engine: \<^verbatim>\<open>extractOutline\<close>\<close>

text \<open>
  An outline node has a title, a destination and child nodes. The destination is absent,
  a name to be looked up, or an explicit array whose first element, when present and not
  null, is a page reference. The document answers the look-ups; each may throw.
\<close>

datatype pageRef = PageRef nat nat

datatype destination = NamedDest string | ExplicitDest "pageRef option list"

datatype outlineItem = OutlineItem string "destination option" "outlineItem list"

datatype pdfError = PdfError string

record pdfDocument =
  numPages :: nat
  getOutline :: "pdfError + outlineItem list option"
  getDestination :: "string \<Rightarrow> pdfError + pageRef option list option"
  getPageIndex :: "pageRef \<Rightarrow> pdfError + nat"

record pdfTocItem =
  tocTitle :: string
  pageNumber :: nat
  level :: nat







section \<open>The EPUB engine: removal of repeated front and back matter\<close>

text \<open>String operations of JavaScript that the pass uses.\<close>

definition jsTrim :: "string \<Rightarrow> string" where
  "jsTrim s = rev (dropWhile isSpace (rev (dropWhile isSpace s)))"

definition startsWith :: "string \<Rightarrow> string \<Rightarrow> bool" where
  "startsWith s p = (take (length p) s = p)"

definition endsWith :: "string \<Rightarrow> string \<Rightarrow> bool" where
  "endsWith s p = (length p \<le> length s \<and> drop (length s - length p) s = p)"

text \<open>\<^verbatim>\<open>s.slice(-n)\<close>: the last \<open>n\<close> characters, the whole string when it is shorter.\<close>

definition sliceLast :: "nat \<Rightarrow> string \<Rightarrow> string" where
  "sliceLast n s = drop (length s - n) s"

text \<open>\<^verbatim>\<open>s.indexOf(p)\<close> and \<^verbatim>\<open>s.lastIndexOf(p)\<close>; the result \<open>-1\<close> is \<open>None\<close>.\<close>

fun indexOf :: "string \<Rightarrow> string \<Rightarrow> nat option" where
  "indexOf [] p = (if p = [] then Some 0 else None)"
| "indexOf (c # cs) p =
     (if startsWith (c # cs) p then Some 0 else map_option Suc (indexOf cs p))"

fun lastIndexOf :: "string \<Rightarrow> string \<Rightarrow> nat option" where
  "lastIndexOf [] p = (if p = [] then Some 0 else None)"
| "lastIndexOf (c # cs) p =
     (case lastIndexOf cs p of
        Some i \<Rightarrow> Some (Suc i)
      | None \<Rightarrow> if startsWith (c # cs) p then Some 0 else None)"

text \<open>
  The loop of \<^verbatim>\<open>findCommonPrefix\<close>: the candidate is the first string, and the tested
  length starts at its length (at most 2000) and shrinks by 50 while it is at least 100.
\<close>

function prefixLoop :: "string list \<Rightarrow> nat \<Rightarrow> string \<Rightarrow> nat \<Rightarrow> string" where
  "prefixLoop strings minCount candidate len =
     (if len < 100 then []
      else if length (filter (\<lambda>s. startsWith s (take len candidate)) strings) \<ge> minCount
           then take len candidate
           else prefixLoop strings minCount candidate (len - 50))"
  by pat_completeness auto
termination
  by (relation "measure (\<lambda>(strings, minCount, candidate, len). len)") auto

declare prefixLoop.simps [simp del]

definition findCommonPrefix :: "string list \<Rightarrow> nat \<Rightarrow> string" where
  "findCommonPrefix strings minCount =
     (case strings of
        [] \<Rightarrow> []
      | candidate # _ \<Rightarrow> prefixLoop strings minCount candidate (min (length candidate) 2000))"

function suffixLoop :: "string list \<Rightarrow> nat \<Rightarrow> string \<Rightarrow> nat \<Rightarrow> string" where
  "suffixLoop strings minCount candidate len =
     (if len < 100 then []
      else if length (filter (\<lambda>s. endsWith s (sliceLast len candidate)) strings) \<ge> minCount
           then sliceLast len candidate
           else suffixLoop strings minCount candidate (len - 50))"
  by pat_completeness auto
termination
  by (relation "measure (\<lambda>(strings, minCount, candidate, len). len)") auto

declare suffixLoop.simps [simp del]

definition findCommonSuffix :: "string list \<Rightarrow> nat \<Rightarrow> string" where
  "findCommonSuffix strings minCount =
     (case strings of
        [] \<Rightarrow> []
      | candidate # _ \<Rightarrow> suffixLoop strings minCount candidate (min (length candidate) 1500))"

text \<open>The two removals applied to the content of one chapter.\<close>

definition stripCommonPrefix :: "string \<Rightarrow> string \<Rightarrow> string" where
  "stripCommonPrefix commonPrefix content =
     (if length commonPrefix > 200
      then (case indexOf content commonPrefix of
              None \<Rightarrow> content
            | Some prefixIndex \<Rightarrow>
                if prefixIndex < 500 then drop (prefixIndex + length commonPrefix) content
                else content)
      else content)"

definition stripCommonSuffix :: "string \<Rightarrow> string \<Rightarrow> string" where
  "stripCommonSuffix commonSuffix content =
     (if length commonSuffix > 200
      then (case lastIndexOf content commonSuffix of
              None \<Rightarrow> content
            | Some suffixIndex \<Rightarrow>
                if int suffixIndex > int (length content) - 2000 then take suffixIndex content
                else content)
      else content)"

text \<open>\<^verbatim>\<open>Math.ceil(chapters.length * 0.5)\<close>.\<close>

definition halfOf :: "nat \<Rightarrow> nat" where
  "halfOf n = (n + 1) div 2"

definition deduplicateChapterContent :: "extractedChapter list \<Rightarrow> extractedChapter list" where
  "deduplicateChapterContent chapters =
     (if length chapters < 3 then chapters
      else
        (let prefixes = map (\<lambda>ch. jsSlice (chContent ch) 0 2000) chapters;
             commonPrefix = findCommonPrefix prefixes (halfOf (length chapters));
             suffixes = map (\<lambda>ch. sliceLast 1500 (chContent ch)) chapters;
             commonSuffix = findCommonSuffix suffixes (halfOf (length chapters))
         in map (\<lambda>ch. ch\<lparr> chContent :=
                     jsTrim (stripCommonSuffix commonSuffix
                               (stripCommonPrefix commonPrefix (chContent ch))) \<rparr>)
              chapters))"

section \<open>Text extraction for search and reading\<close>

text \<open>
  A page of an opened EPUB: the unit of navigation, with the flow document it lies in.
\<close>

record pageInfo =
  pageTitle :: string
  flowId :: string
  pageHref :: string
  anchor :: "string option"

datatype epubError = EpubError string

text \<open>
  The loop of \<^verbatim>\<open>extractBookText\<close> over the pages, \<open>i\<close> the position of the first page of
  the list. The arguments are the look-up of a chapter's markup in the package, which
  may fail, and \<^verbatim>\<open>stripHtml\<close>, whose result is all that the loop inspects. A page whose
  markup cannot be read, or whose plain text is empty after trimming, adds nothing.
\<close>

fun extractPages ::
  "(string \<Rightarrow> epubError + string) \<Rightarrow> (string \<Rightarrow> string) \<Rightarrow> nat \<Rightarrow> pageInfo list
     \<Rightarrow> extractedChapter list" where
  "extractPages getChapter stripHtml i [] = []"
| "extractPages getChapter stripHtml i (page # rest) =
     (case getChapter (flowId page) of
        Inl err \<Rightarrow> extractPages getChapter stripHtml (Suc i) rest
      | Inr html \<Rightarrow>
          (let plainText = stripHtml html
           in if jsTrim plainText \<noteq> []
              then \<lparr> chIndex = i, chTitle = pageTitle page, chContent = plainText \<rparr>
                     # extractPages getChapter stripHtml (Suc i) rest
              else extractPages getChapter stripHtml (Suc i) rest))"

definition extractBookText ::
  "(string \<Rightarrow> epubError + string) \<Rightarrow> (string \<Rightarrow> string) \<Rightarrow> pageInfo list
     \<Rightarrow> extractedChapter list" where
  "extractBookText getChapter stripHtml pages =
     deduplicateChapterContent (extractPages getChapter stripHtml 0 pages)"

text \<open>
  The loop of \<^verbatim>\<open>extractPdfText\<close> over the page numbers; \<open>pageText\<close> is the text
  reconstructed for a page (\<^verbatim>\<open>getPage\<close> followed by \<^verbatim>\<open>getPageText\<close>), which may fail.
  The title of a page is that of the first outline entry pointing to it.
\<close>

definition pdfPageTitle :: "pdfTocItem list \<Rightarrow> nat \<Rightarrow> string" where
  "pdfPageTitle toc pageNum =
     (case find (\<lambda>item. pageNumber item = pageNum) toc of
        None \<Rightarrow> ''Page '' @ showNat pageNum
      | Some item \<Rightarrow> if tocTitle item = [] then ''Page '' @ showNat pageNum else tocTitle item)"

fun extractPdfPages ::
  "(nat \<Rightarrow> pdfError + string) \<Rightarrow> pdfTocItem list \<Rightarrow> nat list \<Rightarrow> extractedChapter list" where
  "extractPdfPages pageText toc [] = []"
| "extractPdfPages pageText toc (pageNum # rest) =
     (case pageText pageNum of
        Inl err \<Rightarrow> extractPdfPages pageText toc rest
      | Inr text \<Rightarrow>
          if jsTrim text \<noteq> []
          then \<lparr> chIndex = pageNum - 1, chTitle = pdfPageTitle toc pageNum, chContent = text \<rparr>
                 # extractPdfPages pageText toc rest
          else extractPdfPages pageText toc rest)"

definition extractPdfText ::
  "pdfDocument \<Rightarrow> (nat \<Rightarrow> pdfError + string) \<Rightarrow> pdfTocItem list \<Rightarrow> extractedChapter list" where
  "extractPdfText doc pageText toc = extractPdfPages pageText toc [1..<Suc (numPages doc)]"

text \<open>Whether a unit yields a chapter: its text was extracted and is not blank.\<close>

definition epubPageHasText ::
  "(string \<Rightarrow> epubError + string) \<Rightarrow> (string \<Rightarrow> string) \<Rightarrow> pageInfo \<Rightarrow> bool" where
  "epubPageHasText getChapter stripHtml page =
     (case getChapter (flowId page) of
        Inl err \<Rightarrow> False
      | Inr html \<Rightarrow> jsTrim (stripHtml html) \<noteq> [])"

definition pdfPageHasText :: "(nat \<Rightarrow> pdfError + string) \<Rightarrow> nat \<Rightarrow> bool" where
  "pdfPageHasText pageText pageNum =
     (case pageText pageNum of Inl err \<Rightarrow> False | Inr text \<Rightarrow> jsTrim text \<noteq> [])"

section \<open>The EPUB engine: building the chapter list in \<^verbatim>\<open>openEpub\<close>\<close>

text \<open>
  The three structures read from the package: the flow, the spine contents and the
  table of contents. Optional fields are options; the order of a node is an integer.
\<close>

record epubTocItem =
  tocHref :: "string option"
  tocItemTitle :: "string option"
  tocLevel :: "nat option"
  tocOrder :: "int option"

record epubFlowItem =
  flowItemId :: string
  flowItemHref :: string

record epubSpineItem =
  spineId :: string
  spineHref :: string
  spineTitle :: "string option"

text \<open>\<^verbatim>\<open>s.replace(/^p/, '')\<close> for a literal \<open>p\<close>, and the chain of \<^verbatim>\<open>normalizeHref\<close>.\<close>

definition dropPrefix :: "string \<Rightarrow> string \<Rightarrow> string" where
  "dropPrefix p s = (if startsWith s p then drop (length p) s else s)"

definition normalizeHref :: "string \<Rightarrow> string" where
  "normalizeHref href =
     dropPrefix ''text/'' (dropPrefix ''xhtml/'' (dropPrefix ''OPS/''
       (dropPrefix ''EPUB/'' (dropPrefix ''OEBPS/'' href))))"

text \<open>
  \<^verbatim>\<open>href.split('#')\<close>: the first element is the part before the first \<^verbatim>\<open>#\<close>, the second
  exists when there is a \<^verbatim>\<open>#\<close> and is the part between the first and the second one.
\<close>

definition fileHrefOf :: "string \<Rightarrow> string" where
  "fileHrefOf href = takeWhile (\<lambda>c. c \<noteq> CHR ''#'') href"

definition anchorOf :: "string \<Rightarrow> string option" where
  "anchorOf href =
     (if CHR ''#'' \<in> set href
      then Some (takeWhile (\<lambda>c. c \<noteq> CHR ''#'') (tl (dropWhile (\<lambda>c. c \<noteq> CHR ''#'') href)))
      else None)"

text \<open>
  The look-up maps. In \<^verbatim>\<open>hrefToFlowId\<close> a later flow item overwrites an earlier one; in
  \<^verbatim>\<open>hrefToTocTitle\<close> a key keeps the title it got first.
\<close>

definition hrefToFlowId :: "epubFlowItem list \<Rightarrow> (string \<rightharpoonup> string)" where
  "hrefToFlowId flow =
     fold (\<lambda>item m. m(flowItemHref item \<mapsto> flowItemId item,
                        normalizeHref (flowItemHref item) \<mapsto> flowItemId item))
          flow Map.empty"

definition hrefToTocTitle :: "epubTocItem list \<Rightarrow> (string \<rightharpoonup> string)" where
  "hrefToTocTitle toc =
     fold (\<lambda>tocItem m.
             if truthy (tocHref tocItem) \<and> truthy (tocItemTitle tocItem)
             then (let fileHref = fileHrefOf (the (tocHref tocItem));
                       m1 = (if m fileHref = None
                             then m(fileHref \<mapsto> the (tocItemTitle tocItem)) else m)
                   in if m1 (normalizeHref fileHref) = None
                      then m1(normalizeHref fileHref \<mapsto> the (tocItemTitle tocItem)) else m1)
             else m)
          toc Map.empty"

definition tocHasAnchors :: "epubTocItem list \<Rightarrow> bool" where
  "tocHasAnchors toc =
     list_ex (\<lambda>t. case tocHref t of None \<Rightarrow> False | Some href \<Rightarrow> CHR ''#'' \<in> set href) toc"

definition useAnchorBasedPages :: "epubTocItem list \<Rightarrow> epubFlowItem list \<Rightarrow> bool" where
  "useAnchorBasedPages toc flow = (length toc > length flow \<and> tocHasAnchors toc)"

text \<open>\<^verbatim>\<open>[...toc].sort((a, b) => (a.order ?? 0) - (b.order ?? 0))\<close>, a stable sort.\<close>

definition sortedToc :: "epubTocItem list \<Rightarrow> epubTocItem list" where
  "sortedToc toc = sort_key (\<lambda>t. case tocOrder t of None \<Rightarrow> 0 | Some n \<Rightarrow> n) toc"

text \<open>
  The loop of the anchor-based mode appends a page for every node of the sorted table of
  contents that has a link whose file is found among the flow documents.
\<close>

fun anchorPages :: "(string \<rightharpoonup> string) \<Rightarrow> pageInfo list \<Rightarrow> epubTocItem list \<Rightarrow> pageInfo list" where
  "anchorPages flowIds pages [] = pages"
| "anchorPages flowIds pages (tocItem # rest) =
     (if \<not> truthy (tocHref tocItem) then anchorPages flowIds pages rest
      else
        (let href = the (tocHref tocItem);
             fileHref = fileHrefOf href;
             found = orElse (flowIds fileHref) (flowIds (normalizeHref fileHref))
         in if \<not> truthy found then anchorPages flowIds pages rest
            else anchorPages flowIds
                   (pages @ [\<lparr> pageTitle = orDefault (tocItemTitle tocItem)
                                              (''Page '' @ showNat (length pages + 1)),
                                flowId = the found, pageHref = fileHref,
                                anchor = anchorOf href \<rparr>])
                   rest))"

text \<open>The flow-based mode makes one page of every spine document.\<close>

definition flowPages :: "(string \<rightharpoonup> string) \<Rightarrow> epubSpineItem list \<Rightarrow> pageInfo list" where
  "flowPages tocTitles spineContents =
     map (\<lambda>(i, spineItem).
            \<lparr> pageTitle =
                orDefault (orElse (spineTitle spineItem)
                             (orElse (tocTitles (spineHref spineItem))
                                     (tocTitles (normalizeHref (spineHref spineItem)))))
                          (''Page '' @ showNat (i + 1)),
              flowId = spineId spineItem, pageHref = spineHref spineItem, anchor = None \<rparr>)
         (enumerate 0 spineContents)"

text \<open>The pages of \<^verbatim>\<open>openEpub\<close>; their number is the chapter count of the book.\<close>

definition openEpubPages ::
  "epubFlowItem list \<Rightarrow> epubTocItem list \<Rightarrow> epubSpineItem list \<Rightarrow> pageInfo list" where
  "openEpubPages flow toc spineContents =
     (if useAnchorBasedPages toc flow
      then anchorPages (hrefToFlowId flow) [] (sortedToc toc)
      else flowPages (hrefToTocTitle toc) spineContents)"

text \<open>
  What the maps answer, read off the lists: the flow document a file link resolves to is
  the last flow item whose link, as written or normalised, is the key; the title for a
  file is that of the first node with a link and a title whose file link, as written or
  normalised, is the key. Both are asked for the link as written and then, when that
  gives nothing, for the normalised link.
\<close>

definition flowDocumentOf :: "epubFlowItem list \<Rightarrow> string \<Rightarrow> string option" where
  "flowDocumentOf flow key =
     map_option flowItemId
       (find (\<lambda>item. flowItemHref item = key \<or> normalizeHref (flowItemHref item) = key)
             (rev flow))"

definition resolvedFlowId :: "epubFlowItem list \<Rightarrow> string \<Rightarrow> string option" where
  "resolvedFlowId flow fileHref =
     orElse (flowDocumentOf flow fileHref) (flowDocumentOf flow (normalizeHref fileHref))"

definition firstTocTitleFor :: "epubTocItem list \<Rightarrow> string \<Rightarrow> string option" where
  "firstTocTitleFor toc key =
     map_option (\<lambda>t. the (tocItemTitle t))
       (find (\<lambda>t. truthy (tocHref t) \<and> truthy (tocItemTitle t)
                  \<and> (fileHrefOf (the (tocHref t)) = key
                      \<or> normalizeHref (fileHrefOf (the (tocHref t))) = key))
             toc)"

definition tocTitleOf :: "epubTocItem list \<Rightarrow> string \<Rightarrow> string option" where
  "tocTitleOf toc href =
     orElse (firstTocTitleFor toc href) (firstTocTitleFor toc (normalizeHref href))"

section \<open>Scanning the library: \<^verbatim>\<open>hashBook\<close> and \<^verbatim>\<open>viewLibrary\<close>\<close>

text \<open>
  The identifier of a book: the first 16 characters of the hexadecimal SHA-256 digest
  of the file's bytes. The digest function and the content of the files are arguments.
\<close>

definition hashBook :: "(string \<Rightarrow> string) \<Rightarrow> (string \<Rightarrow> string) \<Rightarrow> string \<Rightarrow> string" where
  "hashBook sha256Hex fileBytes filePath = take 16 (sha256Hex (fileBytes filePath))"

text \<open>What \<^verbatim>\<open>scanDirectory\<close> reports for a file.\<close>

record scannedBook =
  scanPath :: string
  scanFormat :: bookFormat
  scanTitle :: string
  scanAuthor :: string
  scanCoverUrl :: "string option"
  scanDescription :: "string option"
  scanPageCount :: "nat option"

text \<open>
  One round of the loop over the scanned books: an entry with the identifier of the file
  is brought up to date, otherwise a new entry is appended. \<open>hashOf\<close> is \<^verbatim>\<open>hashBook\<close>
  on the current files and \<open>clock\<close> the time stamp taken when the file at a path is added.
\<close>

definition refreshEntry :: "scannedBook \<Rightarrow> libraryBook \<Rightarrow> libraryBook" where
  "refreshEntry scanned existingBook =
     existingBook\<lparr> bookTitle := scanTitle scanned, bookAuthor := scanAuthor scanned,
                    coverUrl := scanCoverUrl scanned, description := scanDescription scanned \<rparr>"

definition newEntry :: "(string \<Rightarrow> string) \<Rightarrow> (string \<Rightarrow> string) \<Rightarrow> scannedBook \<Rightarrow> libraryBook" where
  "newEntry hashOf clock scanned =
     \<lparr> bookId = hashOf (scanPath scanned), bookFile = scanPath scanned,
       bookTitle = scanTitle scanned, bookAuthor = scanAuthor scanned,
       format = scanFormat scanned, coverUrl = scanCoverUrl scanned,
       description = scanDescription scanned, chapterCount = None,
       addedAt = clock (scanPath scanned), bookLastRead = None \<rparr>"

definition updateExisting ::
  "(string \<Rightarrow> string) \<Rightarrow> scannedBook \<Rightarrow> libraryBook list \<Rightarrow> libraryBook list" where
  "updateExisting hashOf scanned libraryBooks =
     updateFirst (\<lambda>b. bookId b = hashOf (scanPath scanned)) (refreshEntry scanned) libraryBooks"

definition addOrUpdateScanned ::
  "(string \<Rightarrow> string) \<Rightarrow> (string \<Rightarrow> string) \<Rightarrow> scannedBook \<Rightarrow> libraryBook list \<Rightarrow> libraryBook list" where
  "addOrUpdateScanned hashOf clock scanned libraryBooks =
     (if \<exists>b \<in> set libraryBooks. bookId b = hashOf (scanPath scanned)
      then updateExisting hashOf scanned libraryBooks
      else libraryBooks @ [newEntry hashOf clock scanned])"

definition viewLibrary ::
  "(string \<Rightarrow> string) \<Rightarrow> (string \<Rightarrow> string) \<Rightarrow> string \<Rightarrow> scannedBook list \<Rightarrow> libraryData
     \<Rightarrow> libraryData" where
  "viewLibrary hashOf clock scanRoot scannedBooks lib =
     lib\<lparr> bookPath := scanRoot,
          books := filter (\<lambda>book. \<exists>s \<in> set scannedBooks. scanPath s = bookFile book)
                     (fold (addOrUpdateScanned hashOf clock) scannedBooks (books lib)) \<rparr>"

section \<open>Theorems\<close>

subsection \<open>C9: the GUID fallback chain\<close>

lemma orDefault_neq_Nil: "d \<noteq> [] \<Longrightarrow> orDefault a d \<noteq> []"
  by (simp add: orDefault_def split: option.splits)

text \<open>
  C9. The GUID of a parsed article is the item's own guid when that is non-empty, else
  its link when that is non-empty, else its title when that is non-empty, else the
  freshly generated random identifier; as a random UUID is never empty, the GUID of
  every parsed article is non-empty.
\<close>

theorem C9_guid_fallback:
  assumes "\<And>k. uuidOf k \<noteq> []"
  shows "length (parseItems uuidOf items) = length items
         \<and> (\<forall>k < length items.
               guid (parseItems uuidOf items ! k) =
                 (if truthy (itemGuid (items ! k)) then the (itemGuid (items ! k))
                  else if truthy (itemLink (items ! k)) then the (itemLink (items ! k))
                  else if truthy (itemTitle (items ! k)) then the (itemTitle (items ! k))
                  else uuidOf k)
               \<and> guid (parseItems uuidOf items ! k) \<noteq> [])"
proof -
  have one: "guid (parseItem u item) =
           (if truthy (itemGuid item) then the (itemGuid item)
            else if truthy (itemLink item) then the (itemLink item)
            else if truthy (itemTitle item) then the (itemTitle item)
            else u)" for u item
    by (auto simp: parseItem_def orElse_def orDefault_def truthy_def split: option.splits)
  have ne: "guid (parseItem (uuidOf k) item) \<noteq> []" for k item
    using assms [of k] by (simp add: parseItem_def orDefault_neq_Nil)
  have nth: "parseItems uuidOf items ! k = parseItem (uuidOf k) (items ! k)"
    if "k < length items" for k
    using that by (simp add: parseItems_def nth_enumerate_eq)
  show ?thesis
    using one ne nth by (simp add: parseItems_def)
qed

theorem C9_guid_fallback_witness:
  "map guid (parseItems (\<lambda>k. ''5f0c'')
      [\<lparr> itemGuid = Some [], itemLink = None, itemTitle = Some ''News'' \<rparr>,
       \<lparr> itemGuid = None, itemLink = Some [], itemTitle = None \<rparr>])
     = [''News'', ''5f0c'']"
proof -
  let ?items = "[\<lparr> itemGuid = Some [], itemLink = None, itemTitle = Some ''News'' \<rparr>,
       \<lparr> itemGuid = None, itemLink = Some [], itemTitle = None \<rparr>]"
  have u: "\<And>k::nat. ''5f0c'' \<noteq> []" by simp
  note th = C9_guid_fallback [of "\<lambda>k. ''5f0c''" ?items, OF u]
  have len: "length (parseItems (\<lambda>k. ''5f0c'') ?items) = 2"
    using th by simp
  have g0: "guid (parseItems (\<lambda>k. ''5f0c'') ?items ! 0) = ''News''"
    using th by (simp add: truthy_def)
  have g1: "guid (parseItems (\<lambda>k. ''5f0c'') ?items ! 1) = ''5f0c''"
    using th by (simp add: truthy_def)
  show ?thesis
    using len g0 g1 by (simp add: list_eq_iff_nth_eq less_Suc_eq numeral_2_eq_2)
qed

subsection \<open>C7: repair of an out-of-range reading position\<close>

text \<open>
  C7. When the persisted reading position of the book being loaded has a chapter index
  greater than or equal to the book's current chapter count, the tool reports chapter 0
  and the session document it leaves behind holds the corrected position (chapter 0,
  scroll 0, the old time stamp) for that book; a position within range is reported and
  kept unchanged.
\<close>

theorem C7_position_repair:
  assumes "positions (session st) bid = Some pos"
  shows "(chapterIndex pos \<ge> int count \<longrightarrow>
            fst (loadBookTool bid count now st) = Some (0, 0)
            \<and> positions (session (snd (loadBookTool bid count now st))) bid
                = Some \<lparr> chapterIndex = 0, scrollPosition = 0, lastRead = lastRead pos \<rparr>)
         \<and> (chapterIndex pos < int count \<longrightarrow>
            fst (loadBookTool bid count now st) = Some (chapterIndex pos, scrollPosition pos)
            \<and> positions (session (snd (loadBookTool bid count now st))) bid = Some pos)"
  using assms
  by (simp add: loadBookTool_def getPosition_def savePosition_def Let_def)

theorem C7_position_repair_witness:
  "fst (loadBookTool ''ab12'' 3 ''t1''
      \<lparr> library = \<lparr> version = 1, bookPath = [], books = [], collections = [] \<rparr>,
        session = \<lparr> lastBook = None,
          positions = [''ab12'' \<mapsto> \<lparr> chapterIndex = 7, scrollPosition = 1/2, lastRead = ''t0'' \<rparr>] \<rparr> \<rparr>)
     = Some (0, 0)
   \<and> positions (session (snd (loadBookTool ''ab12'' 3 ''t1''
      \<lparr> library = \<lparr> version = 1, bookPath = [], books = [], collections = [] \<rparr>,
        session = \<lparr> lastBook = None,
          positions = [''ab12'' \<mapsto> \<lparr> chapterIndex = 7, scrollPosition = 1/2, lastRead = ''t0'' \<rparr>] \<rparr> \<rparr>)))
       ''ab12''
     = Some \<lparr> chapterIndex = 0, scrollPosition = 0, lastRead = ''t0'' \<rparr>
   \<and> fst (loadBookTool ''ab12'' 3 ''t1''
      \<lparr> library = \<lparr> version = 1, bookPath = [], books = [], collections = [] \<rparr>,
        session = \<lparr> lastBook = None,
          positions = [''ab12'' \<mapsto> \<lparr> chapterIndex = 2, scrollPosition = 1/2, lastRead = ''t0'' \<rparr>] \<rparr> \<rparr>)
     = Some (2, 1/2)
   \<and> positions (session (snd (loadBookTool ''ab12'' 3 ''t1''
      \<lparr> library = \<lparr> version = 1, bookPath = [], books = [], collections = [] \<rparr>,
        session = \<lparr> lastBook = None,
          positions = [''ab12'' \<mapsto> \<lparr> chapterIndex = 2, scrollPosition = 1/2, lastRead = ''t0'' \<rparr>] \<rparr> \<rparr>)))
       ''ab12''
     = Some \<lparr> chapterIndex = 2, scrollPosition = 1/2, lastRead = ''t0'' \<rparr>"
  using C7_position_repair [of
      "\<lparr> library = \<lparr> version = 1, bookPath = [], books = [], collections = [] \<rparr>,
        session = \<lparr> lastBook = None,
          positions = [''ab12'' \<mapsto> \<lparr> chapterIndex = 7, scrollPosition = 1/2, lastRead = ''t0'' \<rparr>] \<rparr> \<rparr>"
      "''ab12''" "\<lparr> chapterIndex = 7, scrollPosition = 1/2, lastRead = ''t0'' \<rparr>" 3 "''t1''"]
    C7_position_repair [of
      "\<lparr> library = \<lparr> version = 1, bookPath = [], books = [], collections = [] \<rparr>,
        session = \<lparr> lastBook = None,
          positions = [''ab12'' \<mapsto> \<lparr> chapterIndex = 2, scrollPosition = 1/2, lastRead = ''t0'' \<rparr>] \<rparr> \<rparr>"
      "''ab12''" "\<lparr> chapterIndex = 2, scrollPosition = 1/2, lastRead = ''t0'' \<rparr>" 3 "''t1''"]
  by simp

subsection \<open>C2: progressive reading reconstructs the chapter\<close>

lemma readSlice_call:
  "readContent (readSlice ch (Some off) l)
     = take (case l of None \<Rightarrow> if length (chContent ch) > 50000 then 30000
                                 else length (chContent ch)
                      | Some n \<Rightarrow> n)
            (drop off (chContent ch))"
  "hasMore (readSlice ch (Some off) l)
     = (off + length (readContent (readSlice ch (Some off) l)) < length (chContent ch))"
  "nextOffset (readSlice ch (Some off) l)
     = (if hasMore (readSlice ch (Some off) l)
        then Some (off + length (readContent (readSlice ch (Some off) l))) else None)"
  by (auto simp: readSlice_def Let_def jsSlice_def min_def split: option.splits)

lemma readSlice_more:
  assumes "validLimit l" "hasMore (readSlice ch (Some off) l)"
  shows "\<exists>n. nextOffset (readSlice ch (Some off) l) = Some n \<and> off < n
              \<and> n \<le> length (chContent ch)
              \<and> readContent (readSlice ch (Some off) l)
                  = take (n - off) (drop off (chContent ch))"
  using assms
  by (auto simp: readSlice_def Let_def jsSlice_def validLimit_def min_def
           split: option.splits if_splits)

lemma readSlice_last:
  assumes "\<not> hasMore (readSlice ch (Some off) l)"
  shows "readContent (readSlice ch (Some off) l) = drop off (chContent ch)"
  using assms
  by (auto simp: readSlice_def Let_def jsSlice_def min_def split: option.splits if_splits)

lemma readAll_total:
  assumes "\<And>k. validLimit (limitOf k)" "find (\<lambda>ch. int (chIndex ch) = idx) chapters = Some ch"
  shows "\<exists>slices. readAll (Some chapters) idx limitOf k (Some off) = Some (Inr slices)
           \<and> concat slices = drop off (chContent ch)"
proof (induction "length (chContent ch) - off" arbitrary: k off rule: less_induct)
  case less
  let ?r = "readSlice ch (Some off) (limitOf k)"
  have rc: "readChapter (Some chapters) idx (Some off) (limitOf k) = Inr ?r"
    by (simp add: readChapter_def assms(2))
  show ?case
  proof (cases "hasMore ?r")
    case False
    then show ?thesis
      by (subst readAll.simps) (simp add: rc readSlice_last)
  next
    case True
    from readSlice_more [OF assms(1) True] obtain n where
      nx: "nextOffset ?r = Some n" and n: "off < n" "n \<le> length (chContent ch)"
      and c: "readContent ?r = take (n - off) (drop off (chContent ch))" by blast
    have "length (chContent ch) - n < length (chContent ch) - off"
      using n by arith
    from less [OF this] obtain slices where
      s: "readAll (Some chapters) idx limitOf (Suc k) (Some n) = Some (Inr slices)"
         "concat slices = drop n (chContent ch)" by blast
    have "drop (n - off) (drop off (chContent ch)) = drop n (chContent ch)"
      using n by simp
    then have "take (n - off) (drop off (chContent ch)) @ drop n (chContent ch)
               = drop off (chContent ch)"
      by (metis append_take_drop_id)
    then show ?thesis
      by (subst readAll.simps) (simp add: rc True nx s c)
  qed
qed

lemma readSlice_default:
  "readContent (readSlice ch (Some 0) None) =
     (if length (chContent ch) \<le> 50000 then chContent ch else take 30000 (chContent ch))"
  by (simp add: readSlice_def Let_def jsSlice_def)

lemma readSlice_180000:
  assumes "length (chContent ch) = 180000"
  shows "readContent (readSlice ch (Some 0) None) = take 30000 (chContent ch)"
    and "hasMore (readSlice ch (Some 0) None)"
    and "nextOffset (readSlice ch (Some 0) None) = Some 30000"
  using assms by (simp_all add: readSlice_def Let_def jsSlice_def)

text \<open>
  C2. For a chapter of the extracted book, a client that starts at offset 0 and passes
  each returned \<^verbatim>\<open>nextOffset\<close> as the next offset until \<^verbatim>\<open>hasMore\<close> is false, with any
  limits the schema admits, finishes, and the slices it received, concatenated, are the
  chapter's text. Every call at an offset returns the characters from that offset up to
  the limit (without an explicit limit: the length of the chapter when that is at most
  50000, else 30000), reports \<^verbatim>\<open>hasMore\<close> exactly when the slice ends before the end
  of the chapter, and then, and only then, returns the end of the slice as
  \<^verbatim>\<open>nextOffset\<close>. So without an explicit limit the first slice is the whole chapter
  when the chapter has at most 50000 characters and its first 30000 characters
  otherwise; for a chapter of 180000 characters the first call returns the characters
  [0, 30000) with \<^verbatim>\<open>hasMore\<close> set and \<^verbatim>\<open>nextOffset\<close> 30000.
\<close>

theorem C2_progressive_read:
  assumes "\<And>k. validLimit (limitOf k)"
    and "find (\<lambda>ch. int (chIndex ch) = idx) chapters = Some ch"
  shows "(\<exists>slices. readAll (Some chapters) idx limitOf 0 (Some 0) = Some (Inr slices)
            \<and> concat slices = chContent ch)
         \<and> (\<forall>off l. \<exists>r. readChapter (Some chapters) idx (Some off) l = Inr r
            \<and> readContent r
                = take (case l of None \<Rightarrow> if length (chContent ch) > 50000 then 30000
                                           else length (chContent ch)
                                | Some n \<Rightarrow> n)
                       (drop off (chContent ch))
            \<and> hasMore r = (off + length (readContent r) < length (chContent ch))
            \<and> nextOffset r = (if hasMore r then Some (off + length (readContent r)) else None))
         \<and> (\<exists>r. readChapter (Some chapters) idx (Some 0) None = Inr r
            \<and> readContent r = (if length (chContent ch) \<le> 50000 then chContent ch
                               else take 30000 (chContent ch))
            \<and> (length (chContent ch) = 180000 \<longrightarrow>
                 readContent r = take 30000 (chContent ch) \<and> hasMore r
                 \<and> nextOffset r = Some 30000))"
proof -
  have rc: "readChapter (Some chapters) idx (Some off) l = Inr (readSlice ch (Some off) l)"
    for off l
    by (simp add: readChapter_def assms(2))
  have a: "\<exists>slices. readAll (Some chapters) idx limitOf 0 (Some 0) = Some (Inr slices)
            \<and> concat slices = chContent ch"
    using readAll_total [OF assms, where k = 0 and off = 0] by simp
  have b: "\<exists>r. readChapter (Some chapters) idx (Some off) l = Inr r
            \<and> readContent r
                = take (case l of None \<Rightarrow> if length (chContent ch) > 50000 then 30000
                                           else length (chContent ch)
                                | Some n \<Rightarrow> n)
                       (drop off (chContent ch))
            \<and> hasMore r = (off + length (readContent r) < length (chContent ch))
            \<and> nextOffset r = (if hasMore r then Some (off + length (readContent r)) else None)"
    for off l
    unfolding rc using readSlice_call [of ch off l] by blast
  have c: "\<exists>r. readChapter (Some chapters) idx (Some 0) None = Inr r
            \<and> readContent r = (if length (chContent ch) \<le> 50000 then chContent ch
                               else take 30000 (chContent ch))
            \<and> (length (chContent ch) = 180000 \<longrightarrow>
                 readContent r = take 30000 (chContent ch) \<and> hasMore r
                 \<and> nextOffset r = Some 30000)"
    unfolding rc using readSlice_default [of ch] readSlice_180000 [of ch] by blast
  show ?thesis using a b c by blast
qed

theorem C2_progressive_read_witness:
  "(\<exists>slices. readAll (Some [\<lparr> chIndex = 4, chTitle = ''IV'',
                                chContent = replicate 180000 (CHR ''a'') \<rparr>])
                 4 (\<lambda>k. None) 0 (Some 0) = Some (Inr slices)
       \<and> concat slices = replicate 180000 (CHR ''a''))
   \<and> (\<exists>r. readChapter (Some [\<lparr> chIndex = 4, chTitle = ''IV'',
                                chContent = replicate 180000 (CHR ''a'') \<rparr>])
              4 (Some 0) None = Inr r
       \<and> readContent r = replicate 30000 (CHR ''a'') \<and> hasMore r
       \<and> nextOffset r = Some 30000)
   \<and> (\<exists>r. readChapter (Some [\<lparr> chIndex = 4, chTitle = ''IV'',
                                chContent = replicate 180000 (CHR ''a'') \<rparr>])
              4 (Some 150000) None = Inr r
       \<and> readContent r = replicate 30000 (CHR ''a'') \<and> \<not> hasMore r
       \<and> nextOffset r = None)"
proof -
  let ?chs = "[\<lparr> chIndex = 4, chTitle = ''IV'', chContent = replicate 180000 (CHR ''a'') \<rparr>]"
  let ?ch = "\<lparr> chIndex = 4, chTitle = ''IV'', chContent = replicate 180000 (CHR ''a'') \<rparr>"
  have v: "\<And>k::nat. validLimit None" by (simp add: validLimit_def)
  have f: "find (\<lambda>ch. int (chIndex ch) = 4) ?chs = Some ?ch" by simp
  note th = C2_progressive_read [where limitOf = "\<lambda>k. None", OF v f]
  from th have a: "\<exists>slices. readAll (Some ?chs) 4 (\<lambda>k. None) 0 (Some 0) = Some (Inr slices)
       \<and> concat slices = replicate 180000 (CHR ''a'')"
    by simp
  from th have b: "\<exists>r. readChapter (Some ?chs) 4 (Some 0) None = Inr r
       \<and> readContent r = replicate 30000 (CHR ''a'') \<and> hasMore r
       \<and> nextOffset r = Some 30000"
    by simp
  from th have "\<forall>off l. \<exists>r. readChapter (Some ?chs) 4 (Some off) l = Inr r
            \<and> readContent r
                = take (case l of None \<Rightarrow> if length (chContent ?ch) > 50000 then 30000
                                           else length (chContent ?ch)
                                | Some n \<Rightarrow> n)
                       (drop off (chContent ?ch))
            \<and> hasMore r = (off + length (readContent r) < length (chContent ?ch))
            \<and> nextOffset r = (if hasMore r then Some (off + length (readContent r)) else None)"
    by blast
  then obtain r where r: "readChapter (Some ?chs) 4 (Some 150000) None = Inr r"
      "readContent r
         = take (case (None :: nat option) of
                   None \<Rightarrow> if length (chContent ?ch) > 50000 then 30000
                           else length (chContent ?ch)
                 | Some n \<Rightarrow> n)
                (drop 150000 (chContent ?ch))"
      "hasMore r = (150000 + length (readContent r) < length (chContent ?ch))"
      "nextOffset r = (if hasMore r then Some (150000 + length (readContent r)) else None)"
    by blast
  have c1: "readContent r = replicate 30000 (CHR ''a'')" using r(2) by simp
  have c2: "\<not> hasMore r" using r(3) unfolding c1 by simp
  have c3: "nextOffset r = None" using r(4) c2 by simp
  have c: "\<exists>r. readChapter (Some ?chs) 4 (Some 150000) None = Inr r
       \<and> readContent r = replicate 30000 (CHR ''a'') \<and> \<not> hasMore r \<and> nextOffset r = None"
    using r(1) c1 c2 c3 by blast
  show ?thesis using a b c by blast
qed

subsection \<open>C5: normalisation of the BM25 scores\<close>

lemma foldr_max_one: "foldr max xs (1::real) = Max (insert 1 (set xs))"
proof (induction xs)
  case Nil
  show ?case by simp
next
  case (Cons a xs)
  have "Max (insert 1 (set (a # xs))) = Max (insert a (insert 1 (set xs)))"
    by (simp add: insert_commute)
  also have "\<dots> = max a (Max (insert 1 (set xs)))"
    by (rule Max_insert) auto
  finally show ?case using Cons by simp
qed

lemma foldr_max_ge: "x \<in> set xs \<Longrightarrow> x \<le> foldr max xs (1::real)"
  by (simp add: foldr_max_one)

lemma foldr_max_pos: "0 < foldr max xs (1::real)"
  by (induction xs) (simp_all add: max_def)

lemma normalizeScores_length: "length (normalizeScores rows) = length rows"
  by (simp add: normalizeScores_def Let_def)

lemma normalizeScores_nth:
  assumes "i < length rows"
  shows "score (normalizeScores rows ! i)
         = \<bar>snd (rows ! i)\<bar> / max 1 (Max (set (map (\<lambda>r. \<bar>snd r\<bar>) rows)))"
proof -
  have ne: "set (map (\<lambda>r. \<bar>snd r\<bar>) rows) \<noteq> {}" using assms by auto
  have "Max (insert 1 (set (map (\<lambda>r. \<bar>snd r\<bar>) rows)))
        = max 1 (Max (set (map (\<lambda>r. \<bar>snd r\<bar>) rows)))"
    using ne by (simp del: set_map)
  then show ?thesis
    using assms
    by (simp add: normalizeScores_def Let_def foldr_max_one case_prod_beta del: set_map)
qed

lemma normalizeScores_range:
  assumes "i < length rows"
  shows "0 \<le> score (normalizeScores rows ! i) \<and> score (normalizeScores rows ! i) \<le> 1"
proof -
  let ?m = "foldr max (map (\<lambda>r. \<bar>snd r\<bar>) rows) 1"
  have "\<bar>snd (rows ! i)\<bar> \<le> ?m"
    using assms by (intro foldr_max_ge) auto
  moreover have "0 < ?m" by (rule foldr_max_pos)
  ultimately show ?thesis
    using assms by (simp add: normalizeScores_def Let_def case_prod_beta)
qed

lemma selectRows_sorted: "sorted (map snd (selectRows rank db terms bookIds limit))"
  by (simp add: selectRows_def sorted_wrt_take take_map [symmetric] del: take_map)

text \<open>
  The claim as stated fails: a result set whose only row has the raw score \<open>-1/2\<close> gets
  the score \<open>1/2\<close>, while the absolute score divided by the largest absolute score of
  the result set is \<open>1\<close>.
\<close>

theorem C5_score_counterexample:
  "map score (searchBookContent (\<lambda>terms f. Some (- 1 / 2))
       \<lparr> book_content = [\<lparr> rowId = ''r1'', rowBookId = ''b1'', rowChapterIndex = 0,
            rowChapterTitle = ''One'', rowContent = ''the quick fox'', rowContentHash = ''h'',
            rowIndexedAt = ''t'', rowBookTitle = None, rowAuthor = None \<rparr>],
         book_content_fts = [\<lparr> ftsContent = ''the quick fox'', ftsChapterTitle = ''One'',
            ftsContentId = ''r1'', ftsBookId = ''b1'' \<rparr>] \<rparr>
       ''fox'' None None) = [1 / 2]
   \<and> map (\<lambda>r. \<bar>snd r\<bar> / Max (set (map (\<lambda>r. \<bar>snd r\<bar>)
            (selectRows (\<lambda>terms f. Some (- 1 / 2))
               \<lparr> book_content = [\<lparr> rowId = ''r1'', rowBookId = ''b1'', rowChapterIndex = 0,
                    rowChapterTitle = ''One'', rowContent = ''the quick fox'',
                    rowContentHash = ''h'', rowIndexedAt = ''t'', rowBookTitle = None,
                    rowAuthor = None \<rparr>],
                 book_content_fts = [\<lparr> ftsContent = ''the quick fox'', ftsChapterTitle = ''One'',
                    ftsContentId = ''r1'', ftsBookId = ''b1'' \<rparr>] \<rparr>
               (ftsTerms ''fox'') None 20))))
       (selectRows (\<lambda>terms f. Some (- 1 / 2))
          \<lparr> book_content = [\<lparr> rowId = ''r1'', rowBookId = ''b1'', rowChapterIndex = 0,
               rowChapterTitle = ''One'', rowContent = ''the quick fox'', rowContentHash = ''h'',
               rowIndexedAt = ''t'', rowBookTitle = None, rowAuthor = None \<rparr>],
            book_content_fts = [\<lparr> ftsContent = ''the quick fox'', ftsChapterTitle = ''One'',
               ftsContentId = ''r1'', ftsBookId = ''b1'' \<rparr>] \<rparr>
          (ftsTerms ''fox'') None 20) = [1]"
  by (simp add: searchBookContent_def normalizeScores_def selectRows_def ftsTerms_def
        searchLimit_def isSpace_def Let_def)

text \<open>
  C5 (amended). For a query with at least one word, the results are the selected rows
  in their order, the rows are ordered by ascending raw score (the most negative, the
  best match, first), and the score of each result is the absolute value of its row's
  raw score divided by the larger of 1 and the largest absolute raw score of the result
  set; every score lies in [0, 1].
\<close>

theorem C5_score_normalisation:
  assumes "ftsTerms query \<noteq> []"
    and "rows = selectRows rank db (ftsTerms query) bookIds (searchLimit limitArg)"
    and "results = searchBookContent rank db query bookIds limitArg"
  shows "length results = length rows
         \<and> sorted (map snd rows)
         \<and> (\<forall>i < length rows.
               score (results ! i)
                 = \<bar>snd (rows ! i)\<bar> / max 1 (Max (set (map (\<lambda>r. \<bar>snd r\<bar>) rows)))
               \<and> 0 \<le> score (results ! i) \<and> score (results ! i) \<le> 1)"
proof -
  have r: "results = normalizeScores rows"
    using assms by (simp add: searchBookContent_def Let_def)
  show ?thesis
    unfolding r
    using normalizeScores_nth [of _ rows] normalizeScores_range [of _ rows]
      selectRows_sorted [of rank db "ftsTerms query" bookIds "searchLimit limitArg"]
    by (simp add: normalizeScores_length assms(2))
qed

theorem C5_score_normalisation_witness:
  "ftsTerms ''fox'' \<noteq> []
   \<and> map snd (selectRows
        (\<lambda>terms f. if ftsContentId f = ''r1'' then Some (- 1 / 2)
                    else if ftsContentId f = ''r2'' then Some (- 3) else None)
        \<lparr> book_content =
            [\<lparr> rowId = ''r1'', rowBookId = ''b1'', rowChapterIndex = 0, rowChapterTitle = ''One'',
               rowContent = ''the quick fox'', rowContentHash = ''h'', rowIndexedAt = ''t'',
               rowBookTitle = None, rowAuthor = None \<rparr>,
             \<lparr> rowId = ''r2'', rowBookId = ''b1'', rowChapterIndex = 1, rowChapterTitle = ''Two'',
               rowContent = ''fox fox fox'', rowContentHash = ''h'', rowIndexedAt = ''t'',
               rowBookTitle = None, rowAuthor = None \<rparr>],
          book_content_fts =
            [\<lparr> ftsContent = ''the quick fox'', ftsChapterTitle = ''One'', ftsContentId = ''r1'',
               ftsBookId = ''b1'' \<rparr>,
             \<lparr> ftsContent = ''fox fox fox'', ftsChapterTitle = ''Two'', ftsContentId = ''r2'',
               ftsBookId = ''b1'' \<rparr>] \<rparr>
        (ftsTerms ''fox'') None (searchLimit None)) = [- 3, - 1 / 2]
   \<and> map score (searchBookContent
        (\<lambda>terms f. if ftsContentId f = ''r1'' then Some (- 1 / 2)
                    else if ftsContentId f = ''r2'' then Some (- 3) else None)
        \<lparr> book_content =
            [\<lparr> rowId = ''r1'', rowBookId = ''b1'', rowChapterIndex = 0, rowChapterTitle = ''One'',
               rowContent = ''the quick fox'', rowContentHash = ''h'', rowIndexedAt = ''t'',
               rowBookTitle = None, rowAuthor = None \<rparr>,
             \<lparr> rowId = ''r2'', rowBookId = ''b1'', rowChapterIndex = 1, rowChapterTitle = ''Two'',
               rowContent = ''fox fox fox'', rowContentHash = ''h'', rowIndexedAt = ''t'',
               rowBookTitle = None, rowAuthor = None \<rparr>],
          book_content_fts =
            [\<lparr> ftsContent = ''the quick fox'', ftsChapterTitle = ''One'', ftsContentId = ''r1'',
               ftsBookId = ''b1'' \<rparr>,
             \<lparr> ftsContent = ''fox fox fox'', ftsChapterTitle = ''Two'', ftsContentId = ''r2'',
               ftsBookId = ''b1'' \<rparr>] \<rparr>
        ''fox'' None None) = [1, 1 / 6]"
proof -
  let ?rank = "\<lambda>(terms :: string) f. if ftsContentId f = ''r1'' then Some (- 1 / 2 :: real)
                    else if ftsContentId f = ''r2'' then Some (- 3) else None"
  let ?db = "\<lparr> book_content =
            [\<lparr> rowId = ''r1'', rowBookId = ''b1'', rowChapterIndex = 0, rowChapterTitle = ''One'',
               rowContent = ''the quick fox'', rowContentHash = ''h'', rowIndexedAt = ''t'',
               rowBookTitle = None, rowAuthor = None \<rparr>,
             \<lparr> rowId = ''r2'', rowBookId = ''b1'', rowChapterIndex = 1, rowChapterTitle = ''Two'',
               rowContent = ''fox fox fox'', rowContentHash = ''h'', rowIndexedAt = ''t'',
               rowBookTitle = None, rowAuthor = None \<rparr>],
          book_content_fts =
            [\<lparr> ftsContent = ''the quick fox'', ftsChapterTitle = ''One'', ftsContentId = ''r1'',
               ftsBookId = ''b1'' \<rparr>,
             \<lparr> ftsContent = ''fox fox fox'', ftsChapterTitle = ''Two'', ftsContentId = ''r2'',
               ftsBookId = ''b1'' \<rparr>] \<rparr>"
  let ?r1 = "\<lparr> rowId = ''r1'', rowBookId = ''b1'', rowChapterIndex = 0, rowChapterTitle = ''One'',
               rowContent = ''the quick fox'', rowContentHash = ''h'', rowIndexedAt = ''t'',
               rowBookTitle = None, rowAuthor = None \<rparr>"
  let ?r2 = "\<lparr> rowId = ''r2'', rowBookId = ''b1'', rowChapterIndex = 1, rowChapterTitle = ''Two'',
               rowContent = ''fox fox fox'', rowContentHash = ''h'', rowIndexedAt = ''t'',
               rowBookTitle = None, rowAuthor = None \<rparr>"
  let ?rows = "selectRows ?rank ?db (ftsTerms ''fox'') None (searchLimit None)"
  let ?res = "searchBookContent ?rank ?db ''fox'' None None"
  have t: "ftsTerms ''fox'' \<noteq> []"
    by (simp add: ftsTerms_def isSpace_def)
  have rows: "?rows = [(?r2, - 3), (?r1, - 1 / 2)]"
    by (simp add: selectRows_def searchLimit_def)
  note th = C5_score_normalisation [OF t refl refl, of ?rank ?db None None]
  from th have len: "length ?res = length ?rows"
    and sc: "\<forall>i < length ?rows. score (?res ! i)
               = \<bar>snd (?rows ! i)\<bar> / max 1 (Max (set (map (\<lambda>r. \<bar>snd r\<bar>) ?rows)))"
    by blast+
  have s0: "score (?res ! 0) = 1"
    using sc [rule_format, of 0] unfolding rows by simp
  have s1: "score (?res ! 1) = 1 / 6"
    using sc [rule_format, of 1] unfolding rows by simp
  have "length ?res = 2"
    using len unfolding rows by simp
  then have "map score ?res = [1, 1 / 6]"
    using s0 s1 by (simp add: list_eq_iff_nth_eq less_Suc_eq numeral_2_eq_2)
  then show ?thesis
    using t rows by simp
qed

subsection \<open>C3: re-indexing is atomic\<close>

lemma fold_filter_fts:
  "fold (\<lambda>cid fts. filter (\<lambda>f. ftsContentId f \<noteq> cid) fts) cids fts
   = filter (\<lambda>f. ftsContentId f \<notin> set cids) fts"
  by (induction cids arbitrary: fts) (auto intro: filter_cong)

lemma deleteBookContent_rows:
  "book_content (deleteBookContent bid db) = filter (\<lambda>r. rowBookId r \<noteq> bid) (book_content db)"
  by (simp add: deleteBookContent_def Let_def)

lemma deleteBookContent_fts:
  assumes "ftsMirrors db"
  shows "filter (\<lambda>f. ftsBookId f = bid) (book_content_fts (deleteBookContent bid db)) = []"
  using assms
  apply (simp add: deleteBookContent_def Let_def fold_filter_fts ftsMirrors_def filter_empty_conv)
  by (metis (mono_tags, lifting) imageI mem_Collect_eq)

lemma insertChapters_ok:
  assumes "insertChapters bid h t bt au idOf k chapters db = Inr db'"
  shows "book_content db' = book_content db @ newRows bid h t bt au idOf k chapters
         \<and> book_content_fts db' = book_content_fts db @ newFts bid idOf k chapters"
  using assms
proof (induction chapters arbitrary: k db)
  case Nil
  then show ?case by (simp add: newRows_def newFts_def)
next
  case (Cons c cs)
  then show ?case
    by (auto simp: newRows_def newFts_def insertContent_def insertFts_def
             split: sum.splits if_splits)
qed


lemma insertChapters_fail_or_ok:
  "indexBookContent bid chapters h bt au idOf t db = (Inl e, db') \<Longrightarrow> db' = db"
  by (auto simp: indexBookContent_def transaction_def split: sum.splits)

lemma indexBookContent_ok:
  assumes "indexBookContent bid chapters h bt au idOf t db = (Inr u, db')"
  shows "book_content db' = filter (\<lambda>r. rowBookId r \<noteq> bid) (book_content db)
                               @ newRows bid h t bt au idOf 0 chapters"
    and "book_content_fts db' = book_content_fts (deleteBookContent bid db)
                               @ newFts bid idOf 0 chapters"
  using assms insertChapters_ok [of bid h t bt au idOf 0 chapters "deleteBookContent bid db" db']
  by (auto simp: indexBookContent_def transaction_def deleteBookContent_rows split: sum.splits)

lemma newRows_book: "r \<in> set (newRows bid h t bt au idOf k chapters) \<Longrightarrow>
    rowBookId r = bid \<and> rowContentHash r = h"
  by (auto simp: newRows_def)

lemma newFts_book: "f \<in> set (newFts bid idOf k chapters) \<Longrightarrow> ftsBookId f = bid"
  by (auto simp: newFts_def)

lemma newFts_mirrored:
  "f \<in> set (newFts bid idOf k chapters) \<Longrightarrow>
     \<exists>r \<in> set (newRows bid h t bt au idOf k chapters).
        rowId r = ftsContentId f \<and> rowBookId r = ftsBookId f"
  by (force simp: newFts_def newRows_def)

lemma deleteBookContent_mirrors:
  assumes "ftsMirrors db" "f \<in> set (book_content_fts (deleteBookContent bid db))"
  shows "\<exists>r \<in> set (book_content db). rowBookId r \<noteq> bid
            \<and> rowId r = ftsContentId f \<and> rowBookId r = ftsBookId f"
proof -
  from assms(2) have f: "f \<in> set (book_content_fts db)"
    and nd: "ftsContentId f \<notin> rowId ` {r \<in> set (book_content db). rowBookId r = bid}"
    by (auto simp: deleteBookContent_def Let_def fold_filter_fts)
  from assms(1) f obtain r where r: "r \<in> set (book_content db)"
    "rowId r = ftsContentId f" "rowBookId r = ftsBookId f"
    unfolding ftsMirrors_def by blast
  with nd have "rowBookId r \<noteq> bid" by force
  with r show ?thesis by blast
qed

lemma reindex_sameHash:
  assumes "sameHashPerBook db" "indexBookContent bid chapters h bt au idOf t db = (Inr u, db')"
  shows "sameHashPerBook db'"
proof -
  have a: "rowBookId r1 = rowBookId r2 \<Longrightarrow> rowContentHash r1 = rowContentHash r2"
    if "r1 \<in> set (book_content db')" "r2 \<in> set (book_content db')" for r1 r2
  proof -
    from that have m: "(r1 \<in> set (book_content db) \<and> rowBookId r1 \<noteq> bid)
                \<or> (rowBookId r1 = bid \<and> rowContentHash r1 = h)"
        "(r2 \<in> set (book_content db) \<and> rowBookId r2 \<noteq> bid)
                \<or> (rowBookId r2 = bid \<and> rowContentHash r2 = h)"
      unfolding indexBookContent_ok(1) [OF assms(2)]
      using newRows_book [of _ bid h t bt au idOf 0 chapters] by auto
    assume "rowBookId r1 = rowBookId r2"
    with m assms(1) show ?thesis
      unfolding sameHashPerBook_def by metis
  qed
  then show ?thesis unfolding sameHashPerBook_def by blast
qed

lemma reindex_mirrors:
  assumes "ftsMirrors db" "indexBookContent bid chapters h bt au idOf t db = (Inr u, db')"
  shows "ftsMirrors db'"
proof -
  have "\<exists>r \<in> set (book_content db'). rowId r = ftsContentId f \<and> rowBookId r = ftsBookId f"
    if "f \<in> set (book_content_fts db')" for f
  proof -
    from that consider "f \<in> set (book_content_fts (deleteBookContent bid db))"
      | "f \<in> set (newFts bid idOf 0 chapters)"
      unfolding indexBookContent_ok(2) [OF assms(2)] by auto
    then show ?thesis
    proof cases
      case 1
      from deleteBookContent_mirrors [OF assms(1) 1] show ?thesis
        unfolding indexBookContent_ok(1) [OF assms(2)] by auto
    next
      case 2
      from newFts_mirrored [OF 2, of h t bt au] show ?thesis
        unfolding indexBookContent_ok(1) [OF assms(2)] by auto
    qed
  qed
  then show ?thesis unfolding ftsMirrors_def by blast
qed

lemma reindex_rows_of_book:
  assumes "indexBookContent bid chapters h bt au idOf t db = (Inr u, db')"
  shows "filter (\<lambda>r. rowBookId r = bid) (book_content db') = newRows bid h t bt au idOf 0 chapters"
    and "filter (\<lambda>r. rowBookId r \<noteq> bid) (book_content db')
         = filter (\<lambda>r. rowBookId r \<noteq> bid) (book_content db)"
  unfolding indexBookContent_ok(1) [OF assms]
  using newRows_book [of _ bid h t bt au idOf 0 chapters]
  by (auto simp: filter_empty_conv filter_id_conv)

lemma reindex_fts_of_book:
  assumes "ftsMirrors db" "indexBookContent bid chapters h bt au idOf t db = (Inr u, db')"
  shows "filter (\<lambda>f. ftsBookId f = bid) (book_content_fts db') = newFts bid idOf 0 chapters"
  unfolding indexBookContent_ok(2) [OF assms(2)]
  using newFts_book [of _ bid idOf 0 chapters] deleteBookContent_fts [OF assms(1), of bid]
  by (auto simp: filter_id_conv)

lemma newRows_proj:
  "map (\<lambda>r. (rowChapterIndex r, rowChapterTitle r, rowContent r, rowContentHash r))
       (newRows bid h t bt au idOf k chapters)
   = map (\<lambda>c. (chIndex c, chTitle c, chContent c, h)) chapters"
  by (induction chapters arbitrary: k) (simp_all add: newRows_def)

lemma newFts_proj:
  "map (\<lambda>f. (ftsChapterTitle f, ftsContent f)) (newFts bid idOf k chapters)
   = map (\<lambda>c. (chTitle c, chContent c)) chapters"
  by (induction chapters arbitrary: k) (simp_all add: newFts_def)

text \<open>
  C3. Re-indexing a book runs as one transaction: when it succeeds, the content rows of
  the book are exactly the new chapter set, each with the new content hash, the index
  entries of the book are exactly those of the new chapters, and the rows of other books
  are untouched; when a statement fails, the store is the one before the call. Either
  way the rows of every book share one content hash in the resulting store (and the
  index still mirrors the table), so no committed state mixes old and new rows.
\<close>

theorem C3_reindex_atomic:
  assumes "sameHashPerBook db" and "ftsMirrors db"
  shows "sameHashPerBook (snd (indexBookContent bid chapters h bt au idOf t db))
    \<and> ftsMirrors (snd (indexBookContent bid chapters h bt au idOf t db))
    \<and> (case fst (indexBookContent bid chapters h bt au idOf t db) of
         Inl e \<Rightarrow> snd (indexBookContent bid chapters h bt au idOf t db) = db
       | Inr u \<Rightarrow>
           map (\<lambda>r. (rowChapterIndex r, rowChapterTitle r, rowContent r, rowContentHash r))
             (filter (\<lambda>r. rowBookId r = bid)
                (book_content (snd (indexBookContent bid chapters h bt au idOf t db))))
           = map (\<lambda>c. (chIndex c, chTitle c, chContent c, h)) chapters
         \<and> map (\<lambda>f. (ftsChapterTitle f, ftsContent f))
             (filter (\<lambda>f. ftsBookId f = bid)
                (book_content_fts (snd (indexBookContent bid chapters h bt au idOf t db))))
           = map (\<lambda>c. (chTitle c, chContent c)) chapters
         \<and> filter (\<lambda>r. rowBookId r \<noteq> bid)
              (book_content (snd (indexBookContent bid chapters h bt au idOf t db)))
           = filter (\<lambda>r. rowBookId r \<noteq> bid) (book_content db))"
proof -
  obtain res db' where eq: "indexBookContent bid chapters h bt au idOf t db = (res, db')"
    by (cases "indexBookContent bid chapters h bt au idOf t db")
  show ?thesis
  proof (cases res)
    case (Inl e)
    with eq have "db' = db" by (simp add: insertChapters_fail_or_ok)
    with eq Inl assms show ?thesis by simp
  next
    case (Inr u)
    with eq have ok: "indexBookContent bid chapters h bt au idOf t db = (Inr u, db')" by simp
    show ?thesis
      using reindex_sameHash [OF assms(1) ok] reindex_mirrors [OF assms(2) ok]
        reindex_rows_of_book [OF ok] reindex_fts_of_book [OF assms(2) ok]
      by (simp add: ok newRows_proj newFts_proj)
  qed
qed

theorem C3_reindex_atomic_witness:
  "sameHashPerBook
     \<lparr> book_content = [\<lparr> rowId = ''r1'', rowBookId = ''b1'', rowChapterIndex = 0,
          rowChapterTitle = ''One'', rowContent = ''old text'', rowContentHash = ''h1'',
          rowIndexedAt = ''t0'', rowBookTitle = None, rowAuthor = None \<rparr>],
       book_content_fts = [\<lparr> ftsContent = ''old text'', ftsChapterTitle = ''One'',
          ftsContentId = ''r1'', ftsBookId = ''b1'' \<rparr>] \<rparr>
   \<and> ftsMirrors
     \<lparr> book_content = [\<lparr> rowId = ''r1'', rowBookId = ''b1'', rowChapterIndex = 0,
          rowChapterTitle = ''One'', rowContent = ''old text'', rowContentHash = ''h1'',
          rowIndexedAt = ''t0'', rowBookTitle = None, rowAuthor = None \<rparr>],
       book_content_fts = [\<lparr> ftsContent = ''old text'', ftsChapterTitle = ''One'',
          ftsContentId = ''r1'', ftsBookId = ''b1'' \<rparr>] \<rparr>
   \<and> map rowContentHash (book_content (snd (indexBookContent ''b1''
        [\<lparr> chIndex = 0, chTitle = ''One'', chContent = ''new text'' \<rparr>,
         \<lparr> chIndex = 2, chTitle = ''Three'', chContent = ''more text'' \<rparr>]
        ''h2'' None None (\<lambda>k. if k = 0 then ''n0'' else ''n1'') ''t1''
        \<lparr> book_content = [\<lparr> rowId = ''r1'', rowBookId = ''b1'', rowChapterIndex = 0,
             rowChapterTitle = ''One'', rowContent = ''old text'', rowContentHash = ''h1'',
             rowIndexedAt = ''t0'', rowBookTitle = None, rowAuthor = None \<rparr>],
          book_content_fts = [\<lparr> ftsContent = ''old text'', ftsChapterTitle = ''One'',
             ftsContentId = ''r1'', ftsBookId = ''b1'' \<rparr>] \<rparr>))) = [''h2'', ''h2'']
   \<and> map rowContentHash (book_content (snd (indexBookContent ''b1''
        [\<lparr> chIndex = 0, chTitle = ''One'', chContent = ''new text'' \<rparr>,
         \<lparr> chIndex = 2, chTitle = ''Three'', chContent = ''more text'' \<rparr>]
        ''h2'' None None (\<lambda>k. ''n0'') ''t1''
        \<lparr> book_content = [\<lparr> rowId = ''r1'', rowBookId = ''b1'', rowChapterIndex = 0,
             rowChapterTitle = ''One'', rowContent = ''old text'', rowContentHash = ''h1'',
             rowIndexedAt = ''t0'', rowBookTitle = None, rowAuthor = None \<rparr>],
          book_content_fts = [\<lparr> ftsContent = ''old text'', ftsChapterTitle = ''One'',
             ftsContentId = ''r1'', ftsBookId = ''b1'' \<rparr>] \<rparr>))) = [''h1'']"
proof -
  let ?db = "\<lparr> book_content = [\<lparr> rowId = ''r1'', rowBookId = ''b1'', rowChapterIndex = 0,
          rowChapterTitle = ''One'', rowContent = ''old text'', rowContentHash = ''h1'',
          rowIndexedAt = ''t0'', rowBookTitle = None, rowAuthor = None \<rparr>],
       book_content_fts = [\<lparr> ftsContent = ''old text'', ftsChapterTitle = ''One'',
          ftsContentId = ''r1'', ftsBookId = ''b1'' \<rparr>] \<rparr>"
  let ?chs = "[\<lparr> chIndex = 0, chTitle = ''One'', chContent = ''new text'' \<rparr>,
         \<lparr> chIndex = 2, chTitle = ''Three'', chContent = ''more text'' \<rparr>]"
  have a: "sameHashPerBook ?db" by (simp add: sameHashPerBook_def)
  have b: "ftsMirrors ?db" by (simp add: ftsMirrors_def)
  have del: "deleteBookContent ''b1'' ?db = \<lparr> book_content = [], book_content_fts = [] \<rparr>"
    by (simp add: deleteBookContent_def)
  have ok: "indexBookContent ''b1'' ?chs ''h2'' None None
              (\<lambda>k. if k = 0 then ''n0'' else ''n1'') ''t1'' ?db
            = (Inr (),
               \<lparr> book_content =
                   [\<lparr> rowId = ''n0'', rowBookId = ''b1'', rowChapterIndex = 0,
                      rowChapterTitle = ''One'', rowContent = ''new text'',
                      rowContentHash = ''h2'', rowIndexedAt = ''t1'', rowBookTitle = None,
                      rowAuthor = None \<rparr>,
                    \<lparr> rowId = ''n1'', rowBookId = ''b1'', rowChapterIndex = 2,
                      rowChapterTitle = ''Three'', rowContent = ''more text'',
                      rowContentHash = ''h2'', rowIndexedAt = ''t1'', rowBookTitle = None,
                      rowAuthor = None \<rparr>],
                 book_content_fts =
                   [\<lparr> ftsContent = ''new text'', ftsChapterTitle = ''One'',
                      ftsContentId = ''n0'', ftsBookId = ''b1'' \<rparr>,
                    \<lparr> ftsContent = ''more text'', ftsChapterTitle = ''Three'',
                      ftsContentId = ''n1'', ftsBookId = ''b1'' \<rparr>] \<rparr>)"
    by (simp add: del transaction_def indexBookContent_def insertContent_def insertFts_def
          orNull_def truthy_def)
  have failed: "fst (indexBookContent ''b1'' ?chs ''h2'' None None (\<lambda>k. ''n0'') ''t1'' ?db)
            = Inl ConstraintPrimaryKey"
    by (simp add: del transaction_def indexBookContent_def insertContent_def insertFts_def
          orNull_def truthy_def)
  have rolled: "snd (indexBookContent ''b1'' ?chs ''h2'' None None (\<lambda>k. ''n0'') ''t1'' ?db) = ?db"
    using C3_reindex_atomic [OF a b, of "''b1''" ?chs "''h2''" None None "\<lambda>k. ''n0''" "''t1''"]
    unfolding failed by simp
  show ?thesis
    using a b rolled unfolding ok by simp
qed

subsection \<open>C8: one bad bookmark does not fail the outline\<close>







subsection \<open>C4: the deduplication pass\<close>

lemma startsWith_prefix: "startsWith s p \<longleftrightarrow> prefix p s"
  by (auto simp: startsWith_def prefix_def) (metis append_take_drop_id)

lemma endsWith_suffix: "endsWith s p \<longleftrightarrow> suffix p s"
  by (auto simp: endsWith_def suffix_def) (metis append_take_drop_id)

lemma sliceLast_suffix: "suffix (sliceLast n s) s"
  by (simp add: sliceLast_def suffix_drop)

lemma length_sliceLast: "length (sliceLast n s) = min n (length s)"
  by (simp add: sliceLast_def)

lemma sliceLast_sliceLast:
  assumes "l \<le> n"
  shows "sliceLast l (sliceLast n s) = sliceLast l s"
proof -
  have "length s - (length s - n + l) + (length s - n) = length s - l"
    using assms by arith
  then show ?thesis by (simp add: sliceLast_def)
qed

lemma indexOf_startsWith: "startsWith s p \<Longrightarrow> indexOf s p = Some 0"
  by (cases s) (auto simp: startsWith_def)

lemma indexOf_occurs: "indexOf s p = Some i \<Longrightarrow> i \<le> length s \<and> startsWith (drop i s) p"
  by (induction s arbitrary: i) (auto simp: startsWith_def split: if_splits)

lemma lastIndexOf_occurs:
  "lastIndexOf s p = Some i \<Longrightarrow> i \<le> length s \<and> startsWith (drop i s) p"
  by (induction s arbitrary: i) (auto simp: startsWith_def split: if_splits option.splits)

lemma prefixLoop_result:
  "prefixLoop strings m pre len = [] \<or>
   (\<exists>k. 50 * k \<le> len \<and> 100 \<le> len - 50 * k
        \<and> prefixLoop strings m pre len = take (len - 50 * k) pre
        \<and> m \<le> length (filter (\<lambda>s. startsWith s (prefixLoop strings m pre len)) strings))"
proof (induction strings m pre len rule: prefixLoop.induct)
  case (1 strings m pre len)
  show ?case
  proof (cases "len < 100")
    case True
    then show ?thesis by (simp add: prefixLoop.simps)
  next
    case False
    show ?thesis
    proof (cases "m \<le> length (filter (\<lambda>s. startsWith s (take len pre)) strings)")
      case True
      with False have "prefixLoop strings m pre len = take len pre"
        by (simp add: prefixLoop.simps)
      with True False show ?thesis
        by (intro disjI2 exI [of _ 0]) simp
    next
      case nm: False
      with False have eq: "prefixLoop strings m pre len = prefixLoop strings m pre (len - 50)"
        by (subst prefixLoop.simps) simp
      from "1.IH" [OF False] nm
      consider "prefixLoop strings m pre (len - 50) = []"
        | k where "50 * k \<le> len - 50" "100 \<le> len - 50 - 50 * k"
            "prefixLoop strings m pre (len - 50) = take (len - 50 - 50 * k) pre"
            "m \<le> length (filter (\<lambda>s. startsWith s (prefixLoop strings m pre (len - 50))) strings)"
        by auto
      then show ?thesis
      proof cases
        case 1
        then show ?thesis by (simp add: eq)
      next
        case 2
        have "len - 50 - 50 * k = len - 50 * Suc k" by simp
        with 2 False show ?thesis
          unfolding eq by (intro disjI2 exI [of _ "Suc k"]) auto
      qed
    qed
  qed
qed

lemma suffixLoop_result:
  "suffixLoop strings m suf len = [] \<or>
   (\<exists>k. 50 * k \<le> len \<and> 100 \<le> len - 50 * k
        \<and> suffixLoop strings m suf len = sliceLast (len - 50 * k) suf
        \<and> m \<le> length (filter (\<lambda>s. endsWith s (suffixLoop strings m suf len)) strings))"
proof (induction strings m suf len rule: suffixLoop.induct)
  case (1 strings m suf len)
  show ?case
  proof (cases "len < 100")
    case True
    then show ?thesis by (simp add: suffixLoop.simps)
  next
    case False
    show ?thesis
    proof (cases "m \<le> length (filter (\<lambda>s. endsWith s (sliceLast len suf)) strings)")
      case True
      with False have "suffixLoop strings m suf len = sliceLast len suf"
        by (simp add: suffixLoop.simps)
      with True False show ?thesis
        by (intro disjI2 exI [of _ 0]) simp
    next
      case nm: False
      with False have eq: "suffixLoop strings m suf len = suffixLoop strings m suf (len - 50)"
        by (subst suffixLoop.simps) simp
      from "1.IH" [OF False] nm
      consider "suffixLoop strings m suf (len - 50) = []"
        | k where "50 * k \<le> len - 50" "100 \<le> len - 50 - 50 * k"
            "suffixLoop strings m suf (len - 50) = sliceLast (len - 50 - 50 * k) suf"
            "m \<le> length (filter (\<lambda>s. endsWith s (suffixLoop strings m suf (len - 50))) strings)"
        by auto
      then show ?thesis
      proof cases
        case 1
        then show ?thesis by (simp add: eq)
      next
        case 2
        have "len - 50 - 50 * k = len - 50 * Suc k" by simp
        with 2 False show ?thesis
          unfolding eq by (intro disjI2 exI [of _ "Suc k"]) auto
      qed
    qed
  qed
qed

lemma prefixLoop_skip:
  assumes "\<And>j. j < k \<Longrightarrow>
             length (filter (\<lambda>s. startsWith s (take (p + 50 * Suc j) pre)) strings) < m"
    and "100 \<le> p"
    and "m \<le> length (filter (\<lambda>s. startsWith s (take p pre)) strings)"
  shows "prefixLoop strings m pre (p + 50 * k) = take p pre"
  using assms(1)
proof (induction k)
  case 0
  with assms(2,3) show ?case by (simp add: prefixLoop.simps)
next
  case (Suc k)
  have "length (filter (\<lambda>s. startsWith s (take (p + 50 * Suc k) pre)) strings) < m"
    using Suc.prems [of k] by simp
  moreover have "p + 50 * Suc k - 50 = p + 50 * k" by simp
  ultimately have "prefixLoop strings m pre (p + 50 * Suc k) = prefixLoop strings m pre (p + 50 * k)"
    using assms(2) by (subst prefixLoop.simps) (simp del: mult_Suc_right)
  also have "\<dots> = take p pre"
    using Suc.prems by (intro Suc.IH) simp
  finally show ?case .
qed

lemma suffixLoop_none:
  assumes "\<And>l. 100 \<le> l \<Longrightarrow> l \<le> len \<Longrightarrow>
             length (filter (\<lambda>s. endsWith s (sliceLast l suf)) strings) < m"
  shows "suffixLoop strings m suf len = []"
  using assms
proof (induction strings m suf len rule: suffixLoop.induct)
  case (1 strings m suf len)
  show ?case
  proof (cases "len < 100")
    case True
    then show ?thesis by (simp add: suffixLoop.simps)
  next
    case False
    then have nm: "\<not> m \<le> length (filter (\<lambda>s. endsWith s (sliceLast len suf)) strings)"
      using "1.prems" [of len] by simp
    have "suffixLoop strings m suf (len - 50) = []"
      using False nm "1.prems" by (intro "1.IH") auto
    then show ?thesis
      using False nm by (subst suffixLoop.simps) simp
  qed
qed
lemma length_filter_mono:
  assumes "\<And>x. x \<in> set xs \<Longrightarrow> P x \<Longrightarrow> Q x"
  shows "length (filter P xs) \<le> length (filter Q xs)"
  using assms by (induction xs) auto

lemma stripCommonPrefix_only_if:
  assumes "stripCommonPrefix cp content \<noteq> content"
  shows "200 < length cp \<and>
         (\<exists>i < 500. indexOf content cp = Some i \<and> startsWith (drop i content) cp
              \<and> stripCommonPrefix cp content = drop (i + length cp) content)"
  using assms indexOf_occurs [of content cp]
  by (auto simp: stripCommonPrefix_def split: if_splits option.splits)

lemma stripCommonSuffix_only_if:
  assumes "stripCommonSuffix cs content \<noteq> content"
  shows "200 < length cs \<and>
         (\<exists>i. lastIndexOf content cs = Some i \<and> int (length content) - 2000 < int i
              \<and> startsWith (drop i content) cs
              \<and> stripCommonSuffix cs content = take i content)"
  using assms lastIndexOf_occurs [of content cs]
  by (auto simp: stripCommonSuffix_def split: if_splits option.splits)

lemma findCommonPrefix_shared:
  assumes "findCommonPrefix strings m \<noteq> []"
  shows "100 \<le> length (findCommonPrefix strings m)
       \<and> (\<exists>k. length (findCommonPrefix strings m) + 50 * k = min (length (hd strings)) 2000)
       \<and> findCommonPrefix strings m = take (length (findCommonPrefix strings m)) (hd strings)
       \<and> m \<le> length (filter (\<lambda>s. startsWith s (findCommonPrefix strings m)) strings)"
proof (cases strings)
  case Nil
  with assms show ?thesis by (simp add: findCommonPrefix_def)
next
  case (Cons c rest)
  let ?len = "min (length c) 2000"
  have eq: "findCommonPrefix strings m = prefixLoop strings m c ?len"
    by (simp add: findCommonPrefix_def Cons)
  from prefixLoop_result [of strings m c ?len] assms eq
  obtain k where k: "50 * k \<le> ?len" "100 \<le> ?len - 50 * k"
      "prefixLoop strings m c ?len = take (?len - 50 * k) c"
      "m \<le> length (filter (\<lambda>s. startsWith s (prefixLoop strings m c ?len)) strings)"
    by auto
  have len: "length (prefixLoop strings m c ?len) = ?len - 50 * k"
    unfolding k(3) by simp
  have "?len - 50 * k + 50 * k = ?len" using k(1) by simp
  then have ex: "\<exists>k'. ?len - 50 * k + 50 * k' = ?len" by blast
  have tk: "prefixLoop strings m c ?len = take (length (prefixLoop strings m c ?len)) c"
    unfolding len by (rule k(3))
  have hd: "hd strings = c" by (simp add: Cons)
  show ?thesis
    unfolding eq hd
  proof (intro conjI)
    show "100 \<le> length (prefixLoop strings m c ?len)" unfolding len by (rule k(2))
    show "\<exists>k. length (prefixLoop strings m c ?len) + 50 * k = ?len"
      unfolding len by (rule ex)
    show "prefixLoop strings m c ?len = take (length (prefixLoop strings m c ?len)) c"
      by (rule tk)
    show "m \<le> length (filter (\<lambda>s. startsWith s (prefixLoop strings m c ?len)) strings)"
      by (rule k(4))
  qed
qed

lemma findCommonSuffix_shared:
  assumes "findCommonSuffix strings m \<noteq> []"
  shows "100 \<le> length (findCommonSuffix strings m)
       \<and> (\<exists>k. length (findCommonSuffix strings m) + 50 * k = min (length (hd strings)) 1500)
       \<and> findCommonSuffix strings m = sliceLast (length (findCommonSuffix strings m)) (hd strings)
       \<and> m \<le> length (filter (\<lambda>s. endsWith s (findCommonSuffix strings m)) strings)"
proof (cases strings)
  case Nil
  with assms show ?thesis by (simp add: findCommonSuffix_def)
next
  case (Cons c rest)
  let ?len = "min (length c) 1500"
  have eq: "findCommonSuffix strings m = suffixLoop strings m c ?len"
    by (simp add: findCommonSuffix_def Cons)
  from suffixLoop_result [of strings m c ?len] assms eq
  obtain k where k: "50 * k \<le> ?len" "100 \<le> ?len - 50 * k"
      "suffixLoop strings m c ?len = sliceLast (?len - 50 * k) c"
      "m \<le> length (filter (\<lambda>s. endsWith s (suffixLoop strings m c ?len)) strings)"
    by auto
  have len: "length (suffixLoop strings m c ?len) = ?len - 50 * k"
    unfolding k(3) by (simp add: length_sliceLast)
  have "?len - 50 * k + 50 * k = ?len" using k(1) by simp
  then have ex: "\<exists>k'. ?len - 50 * k + 50 * k' = ?len" by blast
  have tk: "suffixLoop strings m c ?len = sliceLast (length (suffixLoop strings m c ?len)) c"
    unfolding len by (rule k(3))
  have hd: "hd strings = c" by (simp add: Cons)
  show ?thesis
    unfolding eq hd
  proof (intro conjI)
    show "100 \<le> length (suffixLoop strings m c ?len)" unfolding len by (rule k(2))
    show "\<exists>k. length (suffixLoop strings m c ?len) + 50 * k = ?len"
      unfolding len by (rule ex)
    show "suffixLoop strings m c ?len = sliceLast (length (suffixLoop strings m c ?len)) c"
      by (rule tk)
    show "m \<le> length (filter (\<lambda>s. endsWith s (suffixLoop strings m c ?len)) strings)"
      by (rule k(4))
  qed
qed
lemma preamble_commonPrefix:
  assumes ne: "chapters \<noteq> []"
    and P: "length P = 500" "\<And>ch. ch \<in> set chapters \<Longrightarrow> startsWith (chContent ch) P"
    and aligned: "50 dvd (min (length (chContent (hd chapters))) 2000 - 500)"
    and uniq: "length (filter (\<lambda>ch. take 550 (chContent ch) = take 550 (chContent (hd chapters)))
                         chapters) < halfOf (length chapters)"
  shows "findCommonPrefix (map (\<lambda>ch. jsSlice (chContent ch) 0 2000) chapters)
           (halfOf (length chapters)) = P"
proof -
  let ?c0 = "chContent (hd chapters)"
  let ?cand = "take 2000 ?c0"
  let ?pre = "map (\<lambda>ch. take 2000 (chContent ch)) chapters"
  let ?m = "halfOf (length chapters)"
  let ?L = "min (length ?c0) 2000"
  have pre: "map (\<lambda>ch. jsSlice (chContent ch) 0 2000) chapters = ?pre"
    by (simp add: jsSlice_def)
  have hd0: "hd chapters \<in> set chapters" using ne by simp
  have P0: "take 500 ?c0 = P" using P(2) [OF hd0] P(1) by (simp add: startsWith_def)
  then have "length (take 500 ?c0) = 500" using P(1) by simp
  then have len0: "500 \<le> length ?c0" by simp
  then have "500 \<le> ?L" by simp
  with aligned obtain k where k: "?L = 500 + 50 * k"
    by (metis dvd_def le_add_diff_inverse)
  have lc: "length ?cand = ?L" by simp
  have hdp: "hd ?pre = ?cand" using ne by (simp add: hd_map)
  have "?pre \<noteq> []" using ne by simp
  then have fcp: "findCommonPrefix ?pre ?m = prefixLoop ?pre ?m ?cand (500 + 50 * k)"
    using hdp lc k by (cases ?pre) (simp_all add: findCommonPrefix_def)
  have skip: "length (filter (\<lambda>s. startsWith s (take (500 + 50 * Suc j) ?cand)) ?pre) < ?m"
    if "j < k" for j
  proof -
    define l where "l = 500 + 50 * Suc j"
    have l: "550 \<le> l" "l \<le> ?L" using that k by (simp_all add: l_def)
    then have l2: "l \<le> 2000" "l \<le> length ?c0" by simp_all
    have ml: "min l 2000 = l" "min 550 l = 550" using l(1) l2(1) by simp_all
    have ll: "length (take l ?cand) = l" using l2 by simp
    have imp: "take 550 (chContent x) = take 550 ?c0"
      if "startsWith (take 2000 (chContent x)) (take l ?cand)" for x
    proof -
      from that have "take l (take 2000 (chContent x)) = take l ?cand"
        unfolding startsWith_def ll .
      then have "take l (chContent x) = take l ?c0"
        unfolding take_take ml .
      then have "take 550 (take l (chContent x)) = take 550 (take l ?c0)"
        by (rule arg_cong)
      then show ?thesis unfolding take_take ml .
    qed
    have "length (filter (\<lambda>s. startsWith s (take l ?cand)) ?pre)
          = length (filter (\<lambda>ch. startsWith (take 2000 (chContent ch)) (take l ?cand)) chapters)"
      by (simp add: filter_map comp_def)
    also have "\<dots> \<le> length (filter (\<lambda>ch. take 550 (chContent ch) = take 550 ?c0) chapters)"
      by (rule length_filter_mono) (rule imp)
    finally show ?thesis using uniq unfolding l_def by simp
  qed
  have t500: "take 500 ?cand = P" using P0 by simp
  have all: "startsWith (take 2000 (chContent ch)) (take 500 ?cand)" if "ch \<in> set chapters" for ch
    using P(2) [OF that] P(1) unfolding t500 by (simp add: startsWith_def)
  have "filter (\<lambda>ch. startsWith (take 2000 (chContent ch)) (take 500 ?cand)) chapters = chapters"
    using all by (simp add: filter_id_conv)
  then have "length (filter (\<lambda>s. startsWith s (take 500 ?cand)) ?pre) = length chapters"
    by (simp add: filter_map comp_def)
  then have enough: "?m \<le> length (filter (\<lambda>s. startsWith s (take 500 ?cand)) ?pre)"
    by (simp add: halfOf_def)
  have "prefixLoop ?pre ?m ?cand (500 + 50 * k) = take 500 ?cand"
    by (rule prefixLoop_skip [OF skip _ enough]) simp_all
  then show ?thesis unfolding pre fcp t500 .
qed

lemma preamble_commonSuffix:
  assumes ne: "chapters \<noteq> []"
    and long: "100 \<le> length (chContent (hd chapters))"
    and uniq: "length (filter (\<lambda>ch. endsWith (chContent ch) (sliceLast 100 (chContent (hd chapters))))
                         chapters) < halfOf (length chapters)"
  shows "findCommonSuffix (map (\<lambda>ch. sliceLast 1500 (chContent ch)) chapters)
           (halfOf (length chapters)) = []"
proof -
  let ?c0 = "chContent (hd chapters)"
  let ?cand = "sliceLast 1500 ?c0"
  let ?suf = "map (\<lambda>ch. sliceLast 1500 (chContent ch)) chapters"
  let ?m = "halfOf (length chapters)"
  have hds: "hd ?suf = ?cand" using ne by (simp add: hd_map)
  have "?suf \<noteq> []" using ne by simp
  then have fcs: "findCommonSuffix ?suf ?m = suffixLoop ?suf ?m ?cand (min (length ?cand) 1500)"
    using hds by (cases ?suf) (simp_all add: findCommonSuffix_def)
  have none: "length (filter (\<lambda>s. endsWith s (sliceLast l ?cand)) ?suf) < ?m"
    if l: "100 \<le> l" "l \<le> min (length ?cand) 1500" for l
  proof -
    have sl: "sliceLast l ?cand = sliceLast l ?c0"
      using l(2) by (simp add: sliceLast_sliceLast)
    have "sliceLast 100 (sliceLast l ?c0) = sliceLast 100 ?c0"
      using l(1) by (simp add: sliceLast_sliceLast)
    then have s100: "suffix (sliceLast 100 ?c0) (sliceLast l ?c0)"
      by (metis sliceLast_suffix)
    have imp: "endsWith (chContent x) (sliceLast 100 ?c0)"
      if "endsWith (sliceLast 1500 (chContent x)) (sliceLast l ?cand)" for x
    proof -
      from that have "suffix (sliceLast l ?c0) (sliceLast 1500 (chContent x))"
        by (simp add: endsWith_suffix sl)
      then have "suffix (sliceLast l ?c0) (chContent x)"
        using sliceLast_suffix [of 1500 "chContent x"] by (rule suffix_order.trans)
      with s100 have "suffix (sliceLast 100 ?c0) (chContent x)"
        by (rule suffix_order.trans)
      then show ?thesis by (simp add: endsWith_suffix)
    qed
    have "length (filter (\<lambda>s. endsWith s (sliceLast l ?cand)) ?suf)
          = length (filter (\<lambda>ch. endsWith (sliceLast 1500 (chContent ch)) (sliceLast l ?cand))
                      chapters)"
      by (simp add: filter_map comp_def)
    also have "\<dots> \<le> length (filter (\<lambda>ch. endsWith (chContent ch) (sliceLast 100 ?c0)) chapters)"
      by (rule length_filter_mono) (rule imp)
    finally show ?thesis using uniq by simp
  qed
  show ?thesis unfolding fcs by (rule suffixLoop_none) (rule none)
qed

lemma dedup_preamble:
  assumes n: "3 \<le> length chapters"
    and P: "length P = 500" "\<And>ch. ch \<in> set chapters \<Longrightarrow> startsWith (chContent ch) P"
    and aligned: "50 dvd (min (length (chContent (hd chapters))) 2000 - 500)"
    and uniq: "length (filter (\<lambda>ch. take 550 (chContent ch) = take 550 (chContent (hd chapters)))
                         chapters) < halfOf (length chapters)"
    and uniqEnd: "length (filter (\<lambda>ch. endsWith (chContent ch)
                                         (sliceLast 100 (chContent (hd chapters))))
                         chapters) < halfOf (length chapters)"
  shows "deduplicateChapterContent chapters
         = map (\<lambda>ch. ch\<lparr> chContent := jsTrim (drop 500 (chContent ch)) \<rparr>) chapters"
proof -
  have ne: "chapters \<noteq> []" using n by auto
  then have hd0: "hd chapters \<in> set chapters" by simp
  have "take 500 (chContent (hd chapters)) = P"
    using P(2) [OF hd0] P(1) by (simp add: startsWith_def)
  then have "length (take 500 (chContent (hd chapters))) = 500" using P(1) by simp
  then have long: "100 \<le> length (chContent (hd chapters))" by simp
  note cp = preamble_commonPrefix [OF ne P aligned uniq]
  note cs = preamble_commonSuffix [OF ne long uniqEnd]
  have strip: "stripCommonSuffix [] (stripCommonPrefix P (chContent ch)) = drop 500 (chContent ch)"
    if "ch \<in> set chapters" for ch
    using P(2) [OF that] P(1)
    by (simp add: stripCommonSuffix_def stripCommonPrefix_def indexOf_startsWith)
  show ?thesis
    using n strip by (simp add: deduplicateChapterContent_def Let_def cp cs)
qed
lemma jsTrim_id:
  assumes "s \<noteq> []" "\<not> isSpace (hd s)" "\<not> isSpace (last s)"
  shows "jsTrim s = s"
proof -
  have a: "dropWhile isSpace s = s" using assms(1,2) by (cases s) simp_all
  have "rev s \<noteq> []" "\<not> isSpace (hd (rev s))" using assms(1,3) by (simp_all add: hd_rev)
  then have "dropWhile isSpace (rev s) = rev s" by (cases "rev s") simp_all
  then show ?thesis by (simp add: jsTrim_def a)
qed

lemma dedup_unfold:
  assumes "3 \<le> length chapters"
  shows "deduplicateChapterContent chapters
         = map (\<lambda>ch. ch\<lparr> chContent :=
                  jsTrim (stripCommonSuffix
                            (findCommonSuffix (map (\<lambda>ch. sliceLast 1500 (chContent ch)) chapters)
                               (halfOf (length chapters)))
                            (stripCommonPrefix
                               (findCommonPrefix (map (\<lambda>ch. jsSlice (chContent ch) 0 2000) chapters)
                                  (halfOf (length chapters)))
                               (chContent ch))) \<rparr>) chapters"
  using assms by (simp add: deduplicateChapterContent_def Let_def)

lemma example_commonPrefix:
  "findCommonPrefix
     [replicate 500 (CHR ''x'') @ ''alpha-0123'', replicate 500 (CHR ''x'') @ ''bravo'',
      replicate 500 (CHR ''x'') @ ''charlie'', replicate 500 (CHR ''x'') @ ''delta'',
      replicate 500 (CHR ''x'') @ ''echo''] 3 = replicate 460 (CHR ''x'')"
  by (simp add: findCommonPrefix_def prefixLoop.simps startsWith_def)

lemma example_commonSuffix:
  "findCommonSuffix
     [replicate 500 (CHR ''x'') @ ''alpha-0123'', replicate 500 (CHR ''x'') @ ''bravo'',
      replicate 500 (CHR ''x'') @ ''charlie'', replicate 500 (CHR ''x'') @ ''delta'',
      replicate 500 (CHR ''x'') @ ''echo''] 3 = []"
  by (simp add: findCommonSuffix_def suffixLoop.simps endsWith_def sliceLast_def)

lemma example_strip:
  assumes "u \<noteq> []" "\<not> isSpace (last u)"
  shows "jsTrim (stripCommonSuffix [] (stripCommonPrefix (replicate 460 (CHR ''x''))
            (replicate 500 (CHR ''x'') @ u)))
         = replicate 40 (CHR ''x'') @ u"
proof -
  have "stripCommonPrefix (replicate 460 (CHR ''x'')) (replicate 500 (CHR ''x'') @ u)
        = replicate 40 (CHR ''x'') @ u"
    by (simp add: stripCommonPrefix_def indexOf_startsWith startsWith_def)
  moreover have "jsTrim (replicate 40 (CHR ''x'') @ u) = replicate 40 (CHR ''x'') @ u"
    using assms by (intro jsTrim_id) (simp_all add: isSpace_def)
  ultimately show ?thesis by (simp add: stripCommonSuffix_def)
qed

text \<open>
  The claim as stated fails in its last part: five chapters that share a preamble of 500
  characters, the first chapter 510 characters long. The tested lengths are 510 and
  460, so only 460 characters of the preamble are removed and 40 are left in every
  chapter.
\<close>

theorem C4_preamble_counterexample:
  "map chContent (deduplicateChapterContent
     [\<lparr> chIndex = 0, chTitle = ''A'', chContent = replicate 500 (CHR ''x'') @ ''alpha-0123'' \<rparr>,
      \<lparr> chIndex = 1, chTitle = ''B'', chContent = replicate 500 (CHR ''x'') @ ''bravo'' \<rparr>,
      \<lparr> chIndex = 2, chTitle = ''C'', chContent = replicate 500 (CHR ''x'') @ ''charlie'' \<rparr>,
      \<lparr> chIndex = 3, chTitle = ''D'', chContent = replicate 500 (CHR ''x'') @ ''delta'' \<rparr>,
      \<lparr> chIndex = 4, chTitle = ''E'', chContent = replicate 500 (CHR ''x'') @ ''echo'' \<rparr>])
   = [replicate 40 (CHR ''x'') @ ''alpha-0123'', replicate 40 (CHR ''x'') @ ''bravo'',
      replicate 40 (CHR ''x'') @ ''charlie'', replicate 40 (CHR ''x'') @ ''delta'',
      replicate 40 (CHR ''x'') @ ''echo'']
   \<and> replicate 40 (CHR ''x'') @ ''alpha-0123'' \<noteq> ''alpha-0123''"
proof -
  let ?chs = "[\<lparr> chIndex = 0, chTitle = ''A'', chContent = replicate 500 (CHR ''x'') @ ''alpha-0123'' \<rparr>,
      \<lparr> chIndex = 1, chTitle = ''B'', chContent = replicate 500 (CHR ''x'') @ ''bravo'' \<rparr>,
      \<lparr> chIndex = 2, chTitle = ''C'', chContent = replicate 500 (CHR ''x'') @ ''charlie'' \<rparr>,
      \<lparr> chIndex = 3, chTitle = ''D'', chContent = replicate 500 (CHR ''x'') @ ''delta'' \<rparr>,
      \<lparr> chIndex = 4, chTitle = ''E'', chContent = replicate 500 (CHR ''x'') @ ''echo'' \<rparr>]"
  have n: "3 \<le> length ?chs" by simp
  have m: "halfOf (length ?chs) = 3" by (simp add: halfOf_def)
  have pre: "map (\<lambda>ch. jsSlice (chContent ch) 0 2000) ?chs
      = [replicate 500 (CHR ''x'') @ ''alpha-0123'', replicate 500 (CHR ''x'') @ ''bravo'',
         replicate 500 (CHR ''x'') @ ''charlie'', replicate 500 (CHR ''x'') @ ''delta'',
         replicate 500 (CHR ''x'') @ ''echo'']"
    by (simp add: jsSlice_def)
  have suf: "map (\<lambda>ch. sliceLast 1500 (chContent ch)) ?chs
      = [replicate 500 (CHR ''x'') @ ''alpha-0123'', replicate 500 (CHR ''x'') @ ''bravo'',
         replicate 500 (CHR ''x'') @ ''charlie'', replicate 500 (CHR ''x'') @ ''delta'',
         replicate 500 (CHR ''x'') @ ''echo'']"
    by (simp add: sliceLast_def)
  show ?thesis
    unfolding dedup_unfold [OF n] m pre suf example_commonPrefix example_commonSuffix
    by (simp add: example_strip isSpace_def)
qed

text \<open>
  C4 (amended). With fewer than three chapters the pass returns its input. Otherwise
  every chapter keeps its index and title and its content becomes the trimmed result of
  the two removals, where: the common prefix, when there is one, is a prefix of the
  first chapter's window of 2000 characters whose length is at least 100 and lies a
  multiple of 50 below the length of that window, and it is a prefix of the windows of
  at least half of the chapters; a removal of the prefix changes a chapter only if the
  prefix is longer than 200 characters and first occurs in the chapter at an index
  below 500, and then it removes everything up to the end of that occurrence; the same
  holds for the common suffix with the windows of the last 1500 characters, the last
  occurrence, and an index greater than the length of the content minus 2000. When all
  chapters start with the same 500 characters, the tested lengths reach 500 (the first
  chapter's window is 500 characters plus a multiple of 50), fewer than half of the
  chapters share the first 550 characters of the first chapter and fewer than half end
  with its last 100 characters, exactly the first 500 characters are removed from every
  chapter and the rest is trimmed.
\<close>

theorem C4_dedup:
  "(length chapters < 3 \<longrightarrow> deduplicateChapterContent chapters = chapters)
   \<and> (3 \<le> length chapters \<longrightarrow>
       (let prefixes = map (\<lambda>ch. jsSlice (chContent ch) 0 2000) chapters;
            suffixes = map (\<lambda>ch. sliceLast 1500 (chContent ch)) chapters;
            cp = findCommonPrefix prefixes (halfOf (length chapters));
            cs = findCommonSuffix suffixes (halfOf (length chapters))
        in deduplicateChapterContent chapters
             = map (\<lambda>ch. ch\<lparr> chContent :=
                      jsTrim (stripCommonSuffix cs (stripCommonPrefix cp (chContent ch))) \<rparr>) chapters
         \<and> (cp \<noteq> [] \<longrightarrow>
               100 \<le> length cp
               \<and> (\<exists>k. length cp + 50 * k = min (length (hd prefixes)) 2000)
               \<and> cp = take (length cp) (hd prefixes)
               \<and> halfOf (length chapters) \<le> length (filter (\<lambda>s. startsWith s cp) prefixes))
         \<and> (\<forall>content. stripCommonPrefix cp content \<noteq> content \<longrightarrow>
               200 < length cp
               \<and> (\<exists>i < 500. indexOf content cp = Some i \<and> startsWith (drop i content) cp
                      \<and> stripCommonPrefix cp content = drop (i + length cp) content))
         \<and> (cs \<noteq> [] \<longrightarrow>
               100 \<le> length cs
               \<and> (\<exists>k. length cs + 50 * k = min (length (hd suffixes)) 1500)
               \<and> cs = sliceLast (length cs) (hd suffixes)
               \<and> halfOf (length chapters) \<le> length (filter (\<lambda>s. endsWith s cs) suffixes))
         \<and> (\<forall>content. stripCommonSuffix cs content \<noteq> content \<longrightarrow>
               200 < length cs
               \<and> (\<exists>i. lastIndexOf content cs = Some i \<and> int (length content) - 2000 < int i
                      \<and> startsWith (drop i content) cs
                      \<and> stripCommonSuffix cs content = take i content))
         \<and> ((\<forall>ch \<in> set chapters. take 500 (chContent ch) = take 500 (chContent (hd chapters)))
              \<and> 500 \<le> length (chContent (hd chapters))
              \<and> 50 dvd (min (length (chContent (hd chapters))) 2000 - 500)
              \<and> length (filter (\<lambda>ch. take 550 (chContent ch) = take 550 (chContent (hd chapters)))
                          chapters) < halfOf (length chapters)
              \<and> length (filter (\<lambda>ch. endsWith (chContent ch)
                                         (sliceLast 100 (chContent (hd chapters)))) chapters)
                  < halfOf (length chapters)
             \<longrightarrow> deduplicateChapterContent chapters
                   = map (\<lambda>ch. ch\<lparr> chContent := jsTrim (drop 500 (chContent ch)) \<rparr>) chapters)))"
proof (intro conjI impI)
  assume "length chapters < 3"
  then show "deduplicateChapterContent chapters = chapters"
    by (simp add: deduplicateChapterContent_def)
next
  assume n: "3 \<le> length chapters"
  let ?prefixes = "map (\<lambda>ch. jsSlice (chContent ch) 0 2000) chapters"
  let ?suffixes = "map (\<lambda>ch. sliceLast 1500 (chContent ch)) chapters"
  let ?cp = "findCommonPrefix ?prefixes (halfOf (length chapters))"
  let ?cs = "findCommonSuffix ?suffixes (halfOf (length chapters))"
  have a: "deduplicateChapterContent chapters
             = map (\<lambda>ch. ch\<lparr> chContent :=
                      jsTrim (stripCommonSuffix ?cs (stripCommonPrefix ?cp (chContent ch))) \<rparr>) chapters"
    by (rule dedup_unfold [OF n])
  have b: "?cp \<noteq> [] \<longrightarrow>
               100 \<le> length ?cp
               \<and> (\<exists>k. length ?cp + 50 * k = min (length (hd ?prefixes)) 2000)
               \<and> ?cp = take (length ?cp) (hd ?prefixes)
               \<and> halfOf (length chapters) \<le> length (filter (\<lambda>s. startsWith s ?cp) ?prefixes)"
    using findCommonPrefix_shared [of ?prefixes "halfOf (length chapters)"] by blast
  have c: "\<forall>content. stripCommonPrefix ?cp content \<noteq> content \<longrightarrow>
               200 < length ?cp
               \<and> (\<exists>i < 500. indexOf content ?cp = Some i \<and> startsWith (drop i content) ?cp
                      \<and> stripCommonPrefix ?cp content = drop (i + length ?cp) content)"
    using stripCommonPrefix_only_if [of ?cp] by blast
  have d: "?cs \<noteq> [] \<longrightarrow>
               100 \<le> length ?cs
               \<and> (\<exists>k. length ?cs + 50 * k = min (length (hd ?suffixes)) 1500)
               \<and> ?cs = sliceLast (length ?cs) (hd ?suffixes)
               \<and> halfOf (length chapters) \<le> length (filter (\<lambda>s. endsWith s ?cs) ?suffixes)"
    using findCommonSuffix_shared [of ?suffixes "halfOf (length chapters)"] by blast
  have e: "\<forall>content. stripCommonSuffix ?cs content \<noteq> content \<longrightarrow>
               200 < length ?cs
               \<and> (\<exists>i. lastIndexOf content ?cs = Some i \<and> int (length content) - 2000 < int i
                      \<and> startsWith (drop i content) ?cs
                      \<and> stripCommonSuffix ?cs content = take i content)"
    using stripCommonSuffix_only_if [of ?cs] by blast
  have f: "(\<forall>ch \<in> set chapters. take 500 (chContent ch) = take 500 (chContent (hd chapters)))
              \<and> 500 \<le> length (chContent (hd chapters))
              \<and> 50 dvd (min (length (chContent (hd chapters))) 2000 - 500)
              \<and> length (filter (\<lambda>ch. take 550 (chContent ch) = take 550 (chContent (hd chapters)))
                          chapters) < halfOf (length chapters)
              \<and> length (filter (\<lambda>ch. endsWith (chContent ch)
                                         (sliceLast 100 (chContent (hd chapters)))) chapters)
                  < halfOf (length chapters)
             \<longrightarrow> deduplicateChapterContent chapters
                   = map (\<lambda>ch. ch\<lparr> chContent := jsTrim (drop 500 (chContent ch)) \<rparr>) chapters"
  proof (intro impI, elim conjE)
    let ?P = "take 500 (chContent (hd chapters))"
    assume same: "\<forall>ch \<in> set chapters. take 500 (chContent ch) = ?P"
      and long: "500 \<le> length (chContent (hd chapters))"
      and al: "50 dvd (min (length (chContent (hd chapters))) 2000 - 500)"
      and u1: "length (filter (\<lambda>ch. take 550 (chContent ch) = take 550 (chContent (hd chapters)))
                          chapters) < halfOf (length chapters)"
      and u2: "length (filter (\<lambda>ch. endsWith (chContent ch)
                                         (sliceLast 100 (chContent (hd chapters)))) chapters)
                  < halfOf (length chapters)"
    have lp: "length ?P = 500" using long by simp
    have sw: "startsWith (chContent ch) ?P" if "ch \<in> set chapters" for ch
      using same that lp by (simp add: startsWith_def)
    show "deduplicateChapterContent chapters
            = map (\<lambda>ch. ch\<lparr> chContent := jsTrim (drop 500 (chContent ch)) \<rparr>) chapters"
      by (rule dedup_preamble [OF n lp sw al u1 u2])
  qed
  show "let prefixes = ?prefixes; suffixes = ?suffixes;
            cp = findCommonPrefix prefixes (halfOf (length chapters));
            cs = findCommonSuffix suffixes (halfOf (length chapters))
        in deduplicateChapterContent chapters
             = map (\<lambda>ch. ch\<lparr> chContent :=
                      jsTrim (stripCommonSuffix cs (stripCommonPrefix cp (chContent ch))) \<rparr>) chapters
         \<and> (cp \<noteq> [] \<longrightarrow>
               100 \<le> length cp
               \<and> (\<exists>k. length cp + 50 * k = min (length (hd prefixes)) 2000)
               \<and> cp = take (length cp) (hd prefixes)
               \<and> halfOf (length chapters) \<le> length (filter (\<lambda>s. startsWith s cp) prefixes))
         \<and> (\<forall>content. stripCommonPrefix cp content \<noteq> content \<longrightarrow>
               200 < length cp
               \<and> (\<exists>i < 500. indexOf content cp = Some i \<and> startsWith (drop i content) cp
                      \<and> stripCommonPrefix cp content = drop (i + length cp) content))
         \<and> (cs \<noteq> [] \<longrightarrow>
               100 \<le> length cs
               \<and> (\<exists>k. length cs + 50 * k = min (length (hd suffixes)) 1500)
               \<and> cs = sliceLast (length cs) (hd suffixes)
               \<and> halfOf (length chapters) \<le> length (filter (\<lambda>s. endsWith s cs) suffixes))
         \<and> (\<forall>content. stripCommonSuffix cs content \<noteq> content \<longrightarrow>
               200 < length cs
               \<and> (\<exists>i. lastIndexOf content cs = Some i \<and> int (length content) - 2000 < int i
                      \<and> startsWith (drop i content) cs
                      \<and> stripCommonSuffix cs content = take i content))
         \<and> ((\<forall>ch \<in> set chapters. take 500 (chContent ch) = take 500 (chContent (hd chapters)))
              \<and> 500 \<le> length (chContent (hd chapters))
              \<and> 50 dvd (min (length (chContent (hd chapters))) 2000 - 500)
              \<and> length (filter (\<lambda>ch. take 550 (chContent ch) = take 550 (chContent (hd chapters)))
                          chapters) < halfOf (length chapters)
              \<and> length (filter (\<lambda>ch. endsWith (chContent ch)
                                         (sliceLast 100 (chContent (hd chapters)))) chapters)
                  < halfOf (length chapters)
             \<longrightarrow> deduplicateChapterContent chapters
                   = map (\<lambda>ch. ch\<lparr> chContent := jsTrim (drop 500 (chContent ch)) \<rparr>) chapters)"
    unfolding Let_def using a b c d e f by blast
qed
theorem C4_dedup_witness:
  "map chContent (deduplicateChapterContent
     [\<lparr> chIndex = 0, chTitle = ''A'',
        chContent = replicate 500 (CHR ''x'') @ replicate 1500 (CHR ''a'') \<rparr>,
      \<lparr> chIndex = 1, chTitle = ''B'',
        chContent = replicate 500 (CHR ''x'') @ replicate 1500 (CHR ''b'') \<rparr>,
      \<lparr> chIndex = 2, chTitle = ''C'',
        chContent = replicate 500 (CHR ''x'') @ replicate 1500 (CHR ''c'') \<rparr>,
      \<lparr> chIndex = 3, chTitle = ''D'',
        chContent = replicate 500 (CHR ''x'') @ replicate 1500 (CHR ''d'') \<rparr>,
      \<lparr> chIndex = 4, chTitle = ''E'',
        chContent = replicate 500 (CHR ''x'') @ replicate 1500 (CHR ''e'') \<rparr>])
   = [replicate 1500 (CHR ''a''), replicate 1500 (CHR ''b''), replicate 1500 (CHR ''c''),
      replicate 1500 (CHR ''d''), replicate 1500 (CHR ''e'')]
   \<and> deduplicateChapterContent
     [\<lparr> chIndex = 0, chTitle = ''A'',
        chContent = replicate 500 (CHR ''x'') @ replicate 1500 (CHR ''a'') \<rparr>,
      \<lparr> chIndex = 1, chTitle = ''B'',
        chContent = replicate 500 (CHR ''x'') @ replicate 1500 (CHR ''b'') \<rparr>]
   = [\<lparr> chIndex = 0, chTitle = ''A'',
        chContent = replicate 500 (CHR ''x'') @ replicate 1500 (CHR ''a'') \<rparr>,
      \<lparr> chIndex = 1, chTitle = ''B'',
        chContent = replicate 500 (CHR ''x'') @ replicate 1500 (CHR ''b'') \<rparr>]"
proof -
  let ?chs = "[\<lparr> chIndex = 0, chTitle = ''A'',
        chContent = replicate 500 (CHR ''x'') @ replicate 1500 (CHR ''a'') \<rparr>,
      \<lparr> chIndex = 1, chTitle = ''B'',
        chContent = replicate 500 (CHR ''x'') @ replicate 1500 (CHR ''b'') \<rparr>,
      \<lparr> chIndex = 2, chTitle = ''C'',
        chContent = replicate 500 (CHR ''x'') @ replicate 1500 (CHR ''c'') \<rparr>,
      \<lparr> chIndex = 3, chTitle = ''D'',
        chContent = replicate 500 (CHR ''x'') @ replicate 1500 (CHR ''d'') \<rparr>,
      \<lparr> chIndex = 4, chTitle = ''E'',
        chContent = replicate 500 (CHR ''x'') @ replicate 1500 (CHR ''e'') \<rparr>]"
  have n: "3 \<le> length ?chs" by simp
  have h1: "\<forall>ch \<in> set ?chs. take 500 (chContent ch) = take 500 (chContent (hd ?chs))"
    by simp
  have h2: "500 \<le> length (chContent (hd ?chs))" by simp
  have h3: "50 dvd (min (length (chContent (hd ?chs))) 2000 - 500)" by simp
  have h4: "length (filter (\<lambda>ch. take 550 (chContent ch) = take 550 (chContent (hd ?chs))) ?chs)
            < halfOf (length ?chs)"
    by (simp add: halfOf_def)
  have h5: "length (filter (\<lambda>ch. endsWith (chContent ch) (sliceLast 100 (chContent (hd ?chs))))
                      ?chs) < halfOf (length ?chs)"
    by (simp add: halfOf_def endsWith_def sliceLast_def)
  have "deduplicateChapterContent ?chs
        = map (\<lambda>ch. ch\<lparr> chContent := jsTrim (drop 500 (chContent ch)) \<rparr>) ?chs"
    using C4_dedup [of ?chs] n h1 h2 h3 h4 h5 unfolding Let_def by blast
  then have five: "map chContent (deduplicateChapterContent ?chs)
      = [replicate 1500 (CHR ''a''), replicate 1500 (CHR ''b''), replicate 1500 (CHR ''c''),
         replicate 1500 (CHR ''d''), replicate 1500 (CHR ''e'')]"
    by (simp add: jsTrim_id isSpace_def)
  let ?two = "[\<lparr> chIndex = 0, chTitle = ''A'',
        chContent = replicate 500 (CHR ''x'') @ replicate 1500 (CHR ''a'') \<rparr>,
      \<lparr> chIndex = 1, chTitle = ''B'',
        chContent = replicate 500 (CHR ''x'') @ replicate 1500 (CHR ''b'') \<rparr>]"
  have "length ?two < 3" by simp
  with C4_dedup [of ?two] have two: "deduplicateChapterContent ?two = ?two" by blast
  show ?thesis using five two by simp
qed

subsection \<open>C10: blank units are omitted and chapters are found by their stored index\<close>

lemma dedup_indices: "map chIndex (deduplicateChapterContent chapters) = map chIndex chapters"
  by (simp add: deduplicateChapterContent_def Let_def comp_def)

lemma extractPages_indices:
  "map chIndex (extractPages getChapter stripHtml i pages)
   = filter (\<lambda>j. epubPageHasText getChapter stripHtml (pages ! (j - i))) [i..<i + length pages]"
proof (induction pages arbitrary: i)
  case Nil
  show ?case by simp
next
  case (Cons page rest)
  have upt: "[i..<i + length (page # rest)] = i # [Suc i..<Suc i + length rest]"
    by (simp add: upt_rec)
  have "filter (\<lambda>j. epubPageHasText getChapter stripHtml ((page # rest) ! (j - i)))
          [Suc i..<Suc i + length rest]
        = filter (\<lambda>j. epubPageHasText getChapter stripHtml (rest ! (j - Suc i)))
          [Suc i..<Suc i + length rest]"
  proof (rule filter_cong [OF refl])
    fix j assume "j \<in> set [Suc i..<Suc i + length rest]"
    then have "j - i = Suc (j - Suc i)" by auto
    then show "epubPageHasText getChapter stripHtml ((page # rest) ! (j - i))
               = epubPageHasText getChapter stripHtml (rest ! (j - Suc i))"
      by simp
  qed
  then show ?case
    unfolding upt using Cons.IH [of "Suc i"]
    by (auto simp: epubPageHasText_def Let_def split: sum.splits)
qed

lemma extractPdfPages_indices:
  "map chIndex (extractPdfPages pageText toc nums)
   = map (\<lambda>pageNum. pageNum - 1) (filter (pdfPageHasText pageText) nums)"
  by (induction nums) (auto simp: pdfPageHasText_def split: sum.splits)

lemma find_by_index:
  "find (\<lambda>ch. int (chIndex ch) = int i) chapters = None \<longleftrightarrow> i \<notin> set (map chIndex chapters)"
  by (auto simp: find_None_iff)

lemma find_by_index_Some:
  "find (\<lambda>ch. int (chIndex ch) = int i) chapters = Some ch \<Longrightarrow> chIndex ch = i"
  by (auto simp: find_Some_iff)

lemma readChapter_by_index:
  "(i \<notin> set (map chIndex chapters)
      \<longrightarrow> readChapter (Some chapters) (int i) off limit = Inl ChapterNotFound)
   \<and> (i \<in> set (map chIndex chapters)
      \<longrightarrow> (\<exists>r. readChapter (Some chapters) (int i) off limit = Inr r \<and> readIndex r = i))"
proof (cases "find (\<lambda>ch. int (chIndex ch) = int i) chapters")
  case None
  then show ?thesis
    using find_by_index [of i chapters] by (simp add: readChapter_def)
next
  case (Some ch)
  then have "i \<in> set (map chIndex chapters)"
    using find_by_index [of i chapters] by auto
  moreover have "readIndex (readSlice ch off limit) = i"
    using find_by_index_Some [OF Some] by (simp add: readSlice_def Let_def)
  ultimately show ?thesis
    using Some by (simp add: readChapter_def)
qed

text \<open>
  C10. The chapters extracted from an EPUB carry, in order, exactly the positions of the
  pages whose text could be extracted and is not blank; those extracted from a PDF
  carry the page numbers minus one of such pages. So the list can be shorter than the
  chapter count, with gaps in the indices. \<^verbatim>\<open>readChapter\<close> looks a chapter up by that
  stored index: for an omitted unit it reports that the chapter was not found, although
  the index is below the chapter count, and for a retained unit it returns the chapter
  with that index, whatever its position in the list.
\<close>

theorem C10_blank_units_omitted:
  "map chIndex (extractBookText getChapter stripHtml pages)
     = filter (\<lambda>i. epubPageHasText getChapter stripHtml (pages ! i)) [0..<length pages]
   \<and> map chIndex (extractPdfText doc pageText toc)
     = map (\<lambda>pageNum. pageNum - 1) (filter (pdfPageHasText pageText) [1..<Suc (numPages doc)])
   \<and> (\<forall>i < length pages.
        if epubPageHasText getChapter stripHtml (pages ! i)
        then \<exists>r. readChapter (Some (extractBookText getChapter stripHtml pages)) (int i) off limit
                   = Inr r \<and> readIndex r = i
        else readChapter (Some (extractBookText getChapter stripHtml pages)) (int i) off limit
               = Inl ChapterNotFound)
   \<and> (\<forall>i < numPages doc.
        if pdfPageHasText pageText (Suc i)
        then \<exists>r. readChapter (Some (extractPdfText doc pageText toc)) (int i) off limit
                   = Inr r \<and> readIndex r = i
        else readChapter (Some (extractPdfText doc pageText toc)) (int i) off limit
               = Inl ChapterNotFound)"
proof -
  have e: "map chIndex (extractBookText getChapter stripHtml pages)
     = filter (\<lambda>i. epubPageHasText getChapter stripHtml (pages ! i)) [0..<length pages]"
    using extractPages_indices [of getChapter stripHtml 0 pages]
    by (simp add: extractBookText_def dedup_indices)
  have p: "map chIndex (extractPdfText doc pageText toc)
     = map (\<lambda>pageNum. pageNum - 1) (filter (pdfPageHasText pageText) [1..<Suc (numPages doc)])"
    by (simp add: extractPdfText_def extractPdfPages_indices)
  have em: "i \<in> set (map chIndex (extractBookText getChapter stripHtml pages))
            \<longleftrightarrow> epubPageHasText getChapter stripHtml (pages ! i)" if "i < length pages" for i
    unfolding e using that by simp
  have pm: "i \<in> set (map chIndex (extractPdfText doc pageText toc))
            \<longleftrightarrow> pdfPageHasText pageText (Suc i)" if "i < numPages doc" for i
  proof -
    have "i \<in> (\<lambda>pageNum. pageNum - 1) ` {n \<in> {1..<Suc (numPages doc)}. pdfPageHasText pageText n}
          \<longleftrightarrow> pdfPageHasText pageText (Suc i)"
    proof
      assume "i \<in> (\<lambda>pageNum. pageNum - 1) ` {n \<in> {1..<Suc (numPages doc)}. pdfPageHasText pageText n}"
      then obtain n where "1 \<le> n" "pdfPageHasText pageText n" "i = n - 1" by auto
      then show "pdfPageHasText pageText (Suc i)" by simp
    next
      assume "pdfPageHasText pageText (Suc i)"
      with that have "Suc i \<in> {n \<in> {1..<Suc (numPages doc)}. pdfPageHasText pageText n}" by simp
      then show "i \<in> (\<lambda>pageNum. pageNum - 1) ` {n \<in> {1..<Suc (numPages doc)}. pdfPageHasText pageText n}"
        by force
    qed
    moreover have "set (map (\<lambda>pageNum. pageNum - 1)
                          (filter (pdfPageHasText pageText) [1..<Suc (numPages doc)]))
          = (\<lambda>pageNum. pageNum - 1) ` {n \<in> {1..<Suc (numPages doc)}. pdfPageHasText pageText n}"
      by (simp only: set_map set_filter set_upt)
    ultimately show ?thesis unfolding p by (simp only:)
  qed
  have er: "if epubPageHasText getChapter stripHtml (pages ! i)
        then \<exists>r. readChapter (Some (extractBookText getChapter stripHtml pages)) (int i) off limit
                   = Inr r \<and> readIndex r = i
        else readChapter (Some (extractBookText getChapter stripHtml pages)) (int i) off limit
               = Inl ChapterNotFound" if "i < length pages" for i
    using em [OF that]
      readChapter_by_index [of i "extractBookText getChapter stripHtml pages" off limit]
    by (simp only: split: if_split) blast
  have pr: "if pdfPageHasText pageText (Suc i)
        then \<exists>r. readChapter (Some (extractPdfText doc pageText toc)) (int i) off limit
                   = Inr r \<and> readIndex r = i
        else readChapter (Some (extractPdfText doc pageText toc)) (int i) off limit
               = Inl ChapterNotFound" if "i < numPages doc" for i
    using pm [OF that]
      readChapter_by_index [of i "extractPdfText doc pageText toc" off limit]
    by (simp only: split: if_split) blast
  show ?thesis
    using e p er pr by blast
qed

theorem C10_blank_units_omitted_witness:
  "map chIndex (extractBookText
      (\<lambda>fid. if fid = ''f1'' then Inr ''   '' else if fid = ''f3'' then Inl (EpubError ''x'')
              else Inr ''Some text'')
      (\<lambda>html. html)
      [\<lparr> pageTitle = ''One'', flowId = ''f0'', pageHref = ''a.html'', anchor = None \<rparr>,
       \<lparr> pageTitle = ''Two'', flowId = ''f1'', pageHref = ''b.html'', anchor = None \<rparr>,
       \<lparr> pageTitle = ''Three'', flowId = ''f2'', pageHref = ''c.html'', anchor = None \<rparr>])
     = [0, 2]
   \<and> readChapter (Some (extractBookText
      (\<lambda>fid. if fid = ''f1'' then Inr ''   '' else if fid = ''f3'' then Inl (EpubError ''x'')
              else Inr ''Some text'')
      (\<lambda>html. html)
      [\<lparr> pageTitle = ''One'', flowId = ''f0'', pageHref = ''a.html'', anchor = None \<rparr>,
       \<lparr> pageTitle = ''Two'', flowId = ''f1'', pageHref = ''b.html'', anchor = None \<rparr>,
       \<lparr> pageTitle = ''Three'', flowId = ''f2'', pageHref = ''c.html'', anchor = None \<rparr>]))
      1 None None = Inl ChapterNotFound
   \<and> map chIndex (extractPdfText
      \<lparr> numPages = 3, getOutline = Inr None, getDestination = (\<lambda>n. Inr None),
        getPageIndex = (\<lambda>r. Inr 0) \<rparr>
      (\<lambda>n. if n = 2 then Inr [] else Inr ''Page text'') [])
     = [0, 2]"
proof -
  let ?g = "\<lambda>fid. if fid = ''f1'' then Inr ''   '' else if fid = ''f3'' then Inl (EpubError ''x'')
              else Inr ''Some text''"
  let ?pages = "[\<lparr> pageTitle = ''One'', flowId = ''f0'', pageHref = ''a.html'', anchor = None \<rparr>,
       \<lparr> pageTitle = ''Two'', flowId = ''f1'', pageHref = ''b.html'', anchor = None \<rparr>,
       \<lparr> pageTitle = ''Three'', flowId = ''f2'', pageHref = ''c.html'', anchor = None \<rparr>]"
  let ?doc = "\<lparr> numPages = 3, getOutline = Inr None, getDestination = (\<lambda>n. Inr None),
        getPageIndex = (\<lambda>r. Inr 0) \<rparr>"
  let ?t = "\<lambda>n::nat. if n = 2 then Inr [] else Inr ''Page text''"
  note th = C10_blank_units_omitted [of ?g "\<lambda>html. html" ?pages ?doc ?t "[]" None None]
  have up3: "[0..<length ?pages] = [0, 1, 2]" by (simp add: upt_rec)
  have up4: "[1..<Suc (numPages ?doc)] = [1, 2, 3]" by (simp add: upt_rec)
  have a: "map chIndex (extractBookText ?g (\<lambda>html. html) ?pages) = [0, 2]"
    using th unfolding up3 by (simp add: epubPageHasText_def jsTrim_def isSpace_def)
  have b: "map chIndex (extractPdfText ?doc ?t []) = [0, 2]"
    using th unfolding up4 by (simp add: pdfPageHasText_def jsTrim_def isSpace_def)
  from th have allp: "\<forall>i < length ?pages.
        if epubPageHasText ?g (\<lambda>html. html) (?pages ! i)
        then \<exists>r. readChapter (Some (extractBookText ?g (\<lambda>html. html) ?pages)) (int i) None None
                   = Inr r \<and> readIndex r = i
        else readChapter (Some (extractBookText ?g (\<lambda>html. html) ?pages)) (int i) None None
               = Inl ChapterNotFound"
    by blast
  have one: "(1::nat) < length ?pages" by simp
  have blank: "\<not> epubPageHasText ?g (\<lambda>html. html) (?pages ! 1)"
    by (simp add: epubPageHasText_def jsTrim_def isSpace_def)
  have c: "readChapter (Some (extractBookText ?g (\<lambda>html. html) ?pages)) 1 None None
                = Inl ChapterNotFound"
    using allp [rule_format, OF one] blank by (simp only: if_False int_ops)
  show ?thesis using a b c by simp
qed

subsection \<open>C1: anchor-based and flow-based chapter lists\<close>

lemma find_append_cases:
  "find P (xs @ ys) = (case find P xs of None \<Rightarrow> find P ys | Some x \<Rightarrow> Some x)"
  by (induction xs) simp_all

lemma hrefToFlowId_fold:
  assumes step: "\<And>item m. step item m
                   = m(flowItemHref item \<mapsto> flowItemId item,
                       normalizeHref (flowItemHref item) \<mapsto> flowItemId item)"
  shows "fold step flow m0 key
         = (case flowDocumentOf flow key of None \<Rightarrow> m0 key | Some v \<Rightarrow> Some v)"
proof (induction flow arbitrary: m0)
  case Nil
  show ?case by (simp add: flowDocumentOf_def)
next
  case (Cons item rest)
  have "fold step (item # rest) m0 key = fold step rest (step item m0) key" by simp
  also have "\<dots> = (case flowDocumentOf rest key of None \<Rightarrow> step item m0 key | Some v \<Rightarrow> Some v)"
    by (rule Cons.IH)
  also have "\<dots> = (case flowDocumentOf (item # rest) key of None \<Rightarrow> m0 key | Some v \<Rightarrow> Some v)"
    by (auto simp: step flowDocumentOf_def find_append_cases split: option.splits)
  finally show ?case .
qed

lemma hrefToFlowId_lookup: "hrefToFlowId flow key = flowDocumentOf flow key"
  unfolding hrefToFlowId_def
  by (subst hrefToFlowId_fold) (simp_all split: option.splits)

lemma hrefToTocTitle_fold:
  assumes step: "\<And>tocItem m. step tocItem m
          = (if truthy (tocHref tocItem) \<and> truthy (tocItemTitle tocItem)
             then (let fileHref = fileHrefOf (the (tocHref tocItem));
                       m1 = (if m fileHref = None
                             then m(fileHref \<mapsto> the (tocItemTitle tocItem)) else m)
                   in if m1 (normalizeHref fileHref) = None
                      then m1(normalizeHref fileHref \<mapsto> the (tocItemTitle tocItem)) else m1)
             else m)"
  shows "fold step toc m0 key
         = (case m0 key of None \<Rightarrow> firstTocTitleFor toc key | Some v \<Rightarrow> Some v)"
proof (induction toc arbitrary: m0)
  case Nil
  show ?case by (simp add: firstTocTitleFor_def split: option.splits)
next
  case (Cons t rest)
  have first: "firstTocTitleFor (t # rest) key
      = (if truthy (tocHref t) \<and> truthy (tocItemTitle t)
            \<and> (fileHrefOf (the (tocHref t)) = key
                \<or> normalizeHref (fileHrefOf (the (tocHref t))) = key)
         then Some (the (tocItemTitle t)) else firstTocTitleFor rest key)"
    by (auto simp: firstTocTitleFor_def)
  have "fold step (t # rest) m0 key = fold step rest (step t m0) key" by simp
  also have "\<dots> = (case step t m0 key of None \<Rightarrow> firstTocTitleFor rest key | Some v \<Rightarrow> Some v)"
    by (rule Cons.IH)
  also have "\<dots> = (case m0 key of None \<Rightarrow> firstTocTitleFor (t # rest) key | Some v \<Rightarrow> Some v)"
    unfolding first by (auto simp: step Let_def split: option.splits)
  finally show ?case .
qed

lemma hrefToTocTitle_lookup: "hrefToTocTitle toc key = firstTocTitleFor toc key"
  unfolding hrefToTocTitle_def
  by (subst hrefToTocTitle_fold) simp_all

lemma anchorPages_append:
  "map (\<lambda>p. (flowId p, pageHref p, anchor p)) (anchorPages flowIds pages toc)
   = map (\<lambda>p. (flowId p, pageHref p, anchor p)) pages
     @ map (\<lambda>t. (the (orElse (flowIds (fileHrefOf (the (tocHref t))))
                              (flowIds (normalizeHref (fileHrefOf (the (tocHref t)))))),
                  fileHrefOf (the (tocHref t)), anchorOf (the (tocHref t))))
         (filter (\<lambda>t. truthy (tocHref t)
                       \<and> truthy (orElse (flowIds (fileHrefOf (the (tocHref t))))
                                   (flowIds (normalizeHref (fileHrefOf (the (tocHref t)))))))
                 toc)"
  by (induction toc arbitrary: pages) (simp_all add: Let_def)

lemma flowPages_length: "length (flowPages tocTitles spineContents) = length spineContents"
  by (simp add: flowPages_def)

lemma tocHasAnchors_iff:
  "tocHasAnchors toc \<longleftrightarrow> (\<exists>t \<in> set toc. \<exists>href. tocHref t = Some href \<and> CHR ''#'' \<in> set href)"
  by (auto simp: tocHasAnchors_def list_ex_iff split: option.splits)

lemma flowPages_titles:
  "flowPages (hrefToTocTitle toc) spineContents
   = map (\<lambda>(i, spineItem).
            \<lparr> pageTitle =
                (if truthy (spineTitle spineItem) then the (spineTitle spineItem)
                 else if truthy (tocTitleOf toc (spineHref spineItem))
                      then the (tocTitleOf toc (spineHref spineItem))
                      else ''Page '' @ showNat (i + 1)),
              flowId = spineId spineItem, pageHref = spineHref spineItem, anchor = None \<rparr>)
         (enumerate 0 spineContents)"
proof -
  have "orDefault (orElse a (orElse b c)) d
        = (if truthy a then the a else if truthy (orElse b c) then the (orElse b c) else d)"
    for a b c d
    by (auto simp: orDefault_def orElse_def truthy_def split: option.splits)
  then show ?thesis
    by (simp add: flowPages_def hrefToTocTitle_lookup tocTitleOf_def case_prod_beta)
qed

text \<open>
  C1. The chapter list is built in the anchor-based mode exactly when the table of
  contents has more entries than the flow and some link of it contains \<^verbatim>\<open>#\<close>. In that
  mode the chapters are, in the order of the sorted table of contents, the entries that
  have a link whose file resolves to a flow document, each carrying that document,
  the file link and the anchor. In the other mode the chapters are the spine documents,
  one each and in order, titled by the title embedded in the spine when there is one,
  else by the title of the first entry of the table of contents for that file, else
  \<^verbatim>\<open>Page N\<close> with \<open>N\<close> the position counted from 1. When no link of the table of
  contents contains \<^verbatim>\<open>#\<close>, there are as many chapters as spine documents.
\<close>

theorem C1_chapter_list:
  "(useAnchorBasedPages toc flow \<longleftrightarrow>
      length flow < length toc
      \<and> (\<exists>t \<in> set toc. \<exists>href. tocHref t = Some href \<and> CHR ''#'' \<in> set href))
   \<and> (useAnchorBasedPages toc flow \<longrightarrow>
        map (\<lambda>p. (flowId p, pageHref p, anchor p)) (openEpubPages flow toc spineContents)
        = map (\<lambda>t. (the (resolvedFlowId flow (fileHrefOf (the (tocHref t)))),
                     fileHrefOf (the (tocHref t)), anchorOf (the (tocHref t))))
            (filter (\<lambda>t. truthy (tocHref t)
                          \<and> truthy (resolvedFlowId flow (fileHrefOf (the (tocHref t)))))
                    (sortedToc toc))
        \<and> set (sortedToc toc) = set toc \<and> length (sortedToc toc) = length toc)
   \<and> (\<not> useAnchorBasedPages toc flow \<longrightarrow>
        openEpubPages flow toc spineContents
        = map (\<lambda>(i, spineItem).
                 \<lparr> pageTitle =
                     (if truthy (spineTitle spineItem) then the (spineTitle spineItem)
                      else if truthy (tocTitleOf toc (spineHref spineItem))
                           then the (tocTitleOf toc (spineHref spineItem))
                           else ''Page '' @ showNat (i + 1)),
                   flowId = spineId spineItem, pageHref = spineHref spineItem,
                   anchor = None \<rparr>)
              (enumerate 0 spineContents))
   \<and> ((\<forall>t \<in> set toc. \<forall>href. tocHref t = Some href \<longrightarrow> CHR ''#'' \<notin> set href) \<longrightarrow>
        length (openEpubPages flow toc spineContents) = length spineContents)"
proof (intro conjI impI)
  show mode: "useAnchorBasedPages toc flow \<longleftrightarrow>
      length flow < length toc
      \<and> (\<exists>t \<in> set toc. \<exists>href. tocHref t = Some href \<and> CHR ''#'' \<in> set href)"
    by (simp add: useAnchorBasedPages_def tocHasAnchors_iff)
  show "set (sortedToc toc) = set toc" by (simp add: sortedToc_def)
  show "length (sortedToc toc) = length toc" by (simp add: sortedToc_def)
  {
    assume "useAnchorBasedPages toc flow"
    then show "map (\<lambda>p. (flowId p, pageHref p, anchor p)) (openEpubPages flow toc spineContents)
        = map (\<lambda>t. (the (resolvedFlowId flow (fileHrefOf (the (tocHref t)))),
                     fileHrefOf (the (tocHref t)), anchorOf (the (tocHref t))))
            (filter (\<lambda>t. truthy (tocHref t)
                          \<and> truthy (resolvedFlowId flow (fileHrefOf (the (tocHref t)))))
                    (sortedToc toc))"
      using anchorPages_append [of "hrefToFlowId flow" "[]" "sortedToc toc"]
      by (simp add: openEpubPages_def hrefToFlowId_lookup resolvedFlowId_def)
  }
  {
    assume "\<not> useAnchorBasedPages toc flow"
    then show "openEpubPages flow toc spineContents
        = map (\<lambda>(i, spineItem).
                 \<lparr> pageTitle =
                     (if truthy (spineTitle spineItem) then the (spineTitle spineItem)
                      else if truthy (tocTitleOf toc (spineHref spineItem))
                           then the (tocTitleOf toc (spineHref spineItem))
                           else ''Page '' @ showNat (i + 1)),
                   flowId = spineId spineItem, pageHref = spineHref spineItem,
                   anchor = None \<rparr>)
              (enumerate 0 spineContents)"
      by (simp add: openEpubPages_def flowPages_titles)
  }
  {
    assume "\<forall>t \<in> set toc. \<forall>href. tocHref t = Some href \<longrightarrow> CHR ''#'' \<notin> set href"
    then have "\<not> useAnchorBasedPages toc flow" using mode by blast
    then show "length (openEpubPages flow toc spineContents) = length spineContents"
      by (simp add: openEpubPages_def flowPages_length)
  }
qed

theorem C1_chapter_list_witness:
  "map (\<lambda>p. (flowId p, pageHref p, anchor p))
     (openEpubPages
        [\<lparr> flowItemId = ''f1'', flowItemHref = ''OEBPS/book.html'' \<rparr>]
        [\<lparr> tocHref = Some ''book.html#two'', tocItemTitle = Some ''Two'', tocLevel = None,
           tocOrder = Some 2 \<rparr>,
         \<lparr> tocHref = Some ''book.html#one'', tocItemTitle = Some ''One'', tocLevel = None,
           tocOrder = Some 1 \<rparr>,
         \<lparr> tocHref = Some ''gone.html'', tocItemTitle = Some ''Gone'', tocLevel = None,
           tocOrder = Some 3 \<rparr>]
        [\<lparr> spineId = ''f1'', spineHref = ''OEBPS/book.html'', spineTitle = None \<rparr>])
     = [(''f1'', ''book.html'', Some ''one''), (''f1'', ''book.html'', Some ''two'')]
   \<and> map pageTitle
     (openEpubPages
        [\<lparr> flowItemId = ''f1'', flowItemHref = ''OEBPS/a.html'' \<rparr>,
         \<lparr> flowItemId = ''f2'', flowItemHref = ''OEBPS/b.html'' \<rparr>,
         \<lparr> flowItemId = ''f3'', flowItemHref = ''OEBPS/c.html'' \<rparr>]
        [\<lparr> tocHref = Some ''b.html'', tocItemTitle = Some ''Second'', tocLevel = None,
           tocOrder = Some 1 \<rparr>,
         \<lparr> tocHref = Some ''b.html'', tocItemTitle = Some ''Later'', tocLevel = None,
           tocOrder = Some 2 \<rparr>]
        [\<lparr> spineId = ''f1'', spineHref = ''OEBPS/a.html'', spineTitle = Some ''Cover'' \<rparr>,
         \<lparr> spineId = ''f2'', spineHref = ''OEBPS/b.html'', spineTitle = None \<rparr>,
         \<lparr> spineId = ''f3'', spineHref = ''OEBPS/c.html'', spineTitle = Some [] \<rparr>])
     = [''Cover'', ''Second'', ''Page 3'']"
proof -
  let ?flow1 = "[\<lparr> flowItemId = ''f1'', flowItemHref = ''OEBPS/book.html'' \<rparr>]"
  let ?toc1 = "[\<lparr> tocHref = Some ''book.html#two'', tocItemTitle = Some ''Two'', tocLevel = None,
           tocOrder = Some 2 \<rparr>,
         \<lparr> tocHref = Some ''book.html#one'', tocItemTitle = Some ''One'', tocLevel = None,
           tocOrder = Some 1 \<rparr>,
         \<lparr> tocHref = Some ''gone.html'', tocItemTitle = Some ''Gone'', tocLevel = None,
           tocOrder = Some 3 \<rparr>]"
  let ?spine1 = "[\<lparr> spineId = ''f1'', spineHref = ''OEBPS/book.html'', spineTitle = None \<rparr>]"
  let ?flow2 = "[\<lparr> flowItemId = ''f1'', flowItemHref = ''OEBPS/a.html'' \<rparr>,
         \<lparr> flowItemId = ''f2'', flowItemHref = ''OEBPS/b.html'' \<rparr>,
         \<lparr> flowItemId = ''f3'', flowItemHref = ''OEBPS/c.html'' \<rparr>]"
  let ?toc2 = "[\<lparr> tocHref = Some ''b.html'', tocItemTitle = Some ''Second'', tocLevel = None,
           tocOrder = Some 1 \<rparr>,
         \<lparr> tocHref = Some ''b.html'', tocItemTitle = Some ''Later'', tocLevel = None,
           tocOrder = Some 2 \<rparr>]"
  let ?spine2 = "[\<lparr> spineId = ''f1'', spineHref = ''OEBPS/a.html'', spineTitle = Some ''Cover'' \<rparr>,
         \<lparr> spineId = ''f2'', spineHref = ''OEBPS/b.html'', spineTitle = None \<rparr>,
         \<lparr> spineId = ''f3'', spineHref = ''OEBPS/c.html'', spineTitle = Some [] \<rparr>]"
  have m1: "useAnchorBasedPages ?toc1 ?flow1"
    by (simp add: useAnchorBasedPages_def tocHasAnchors_def)
  have m2: "\<not> useAnchorBasedPages ?toc2 ?flow2"
    by (simp add: useAnchorBasedPages_def tocHasAnchors_def)
  have s1: "sortedToc ?toc1 = [?toc1 ! 1, ?toc1 ! 0, ?toc1 ! 2]"
    by (simp add: sortedToc_def)
  have norm: "normalizeHref ''OEBPS/book.html'' = ''book.html''"
    "normalizeHref ''book.html'' = ''book.html''" "normalizeHref ''gone.html'' = ''gone.html''"
    "normalizeHref ''OEBPS/a.html'' = ''a.html''" "normalizeHref ''OEBPS/b.html'' = ''b.html''"
    "normalizeHref ''OEBPS/c.html'' = ''c.html''" "normalizeHref ''b.html'' = ''b.html''"
    by (simp_all add: normalizeHref_def dropPrefix_def startsWith_def)
  from C1_chapter_list [of ?toc1 ?flow1 ?spine1] m1
  have "map (\<lambda>p. (flowId p, pageHref p, anchor p)) (openEpubPages ?flow1 ?toc1 ?spine1)
        = map (\<lambda>t. (the (resolvedFlowId ?flow1 (fileHrefOf (the (tocHref t)))),
                     fileHrefOf (the (tocHref t)), anchorOf (the (tocHref t))))
            (filter (\<lambda>t. truthy (tocHref t)
                          \<and> truthy (resolvedFlowId ?flow1 (fileHrefOf (the (tocHref t)))))
                    (sortedToc ?toc1))"
    by blast
  then have a: "map (\<lambda>p. (flowId p, pageHref p, anchor p)) (openEpubPages ?flow1 ?toc1 ?spine1)
        = [(''f1'', ''book.html'', Some ''one''), (''f1'', ''book.html'', Some ''two'')]"
    unfolding s1
    by (simp add: resolvedFlowId_def flowDocumentOf_def fileHrefOf_def anchorOf_def norm
          truthy_def orElse_def)
  from C1_chapter_list [of ?toc2 ?flow2 ?spine2] m2
  have "openEpubPages ?flow2 ?toc2 ?spine2
        = map (\<lambda>(i, spineItem).
                 \<lparr> pageTitle =
                     (if truthy (spineTitle spineItem) then the (spineTitle spineItem)
                      else if truthy (tocTitleOf ?toc2 (spineHref spineItem))
                           then the (tocTitleOf ?toc2 (spineHref spineItem))
                           else ''Page '' @ showNat (i + 1)),
                   flowId = spineId spineItem, pageHref = spineHref spineItem,
                   anchor = None \<rparr>)
              (enumerate 0 ?spine2)"
    by blast
  then have b: "map pageTitle (openEpubPages ?flow2 ?toc2 ?spine2)
                = [''Cover'', ''Second'', ''Page 3'']"
    by (simp add: tocTitleOf_def firstTocTitleFor_def fileHrefOf_def norm truthy_def orElse_def
          showNat.simps)
  show ?thesis using a b by simp
qed

subsection \<open>C6: scanning reconciles the catalog\<close>

lemma updateFirst_ids [simp]:
  "(\<And>b. bookId (f b) = bookId b) \<Longrightarrow> map bookId (updateFirst P f bs) = map bookId bs"
  by (induction bs) simp_all

lemma updateFirst_files [simp]:
  "(\<And>b. bookFile (f b) = bookFile b) \<Longrightarrow> map bookFile (updateFirst P f bs) = map bookFile bs"
  by (induction bs) simp_all

lemma refreshEntry_simps [simp]:
  "bookId (refreshEntry s b) = bookId b" "bookFile (refreshEntry s b) = bookFile b"
  "refreshEntry s (refreshEntry s' b) = refreshEntry s b"
  by (simp_all add: refreshEntry_def)

lemma refreshEntry_newEntry [simp]: "refreshEntry s (newEntry hashOf clock s) = newEntry hashOf clock s"
  by (simp add: refreshEntry_def newEntry_def)

lemma newEntry_simps [simp]:
  "bookId (newEntry hashOf clock s) = hashOf (scanPath s)"
  "bookFile (newEntry hashOf clock s) = scanPath s"
  by (simp_all add: newEntry_def)

lemma updateFirst_set:
  assumes "\<And>b. bookId (f b) = bookId b" "\<And>b. bookFile (f b) = bookFile b"
    and "x \<in> set (updateFirst P f bs)"
  shows "\<exists>b \<in> set bs. bookId x = bookId b \<and> bookFile x = bookFile b"
  using assms(3)
  by (induction bs) (auto simp: assms(1,2) split: if_splits)

lemma updateFirst_absorb:
  assumes "\<And>b. P (g b) = P b" "\<And>b. f (g b) = f b"
  shows "updateFirst P f (updateFirst P g bs) = updateFirst P f bs"
  by (induction bs) (simp_all add: assms)

lemma updateFirst_commute:
  assumes "\<And>b. \<not> (P b \<and> Q b)" "\<And>b. P (g b) = P b" "\<And>b. Q (f b) = Q b"
  shows "updateFirst P f (updateFirst Q g bs) = updateFirst Q g (updateFirst P f bs)"
  using assms(1) by (induction bs) (auto simp: assms(2,3))

lemma updateFirst_append:
  "updateFirst P f (xs @ ys)
   = (if \<exists>x \<in> set xs. P x then updateFirst P f xs @ ys else xs @ updateFirst P f ys)"
  by (induction xs) auto

lemma updateFirst_filter:
  assumes "\<And>b. b \<in> set bs \<Longrightarrow> P b \<Longrightarrow> K b" "\<And>b. K (f b) = K b"
  shows "filter K (updateFirst P f bs) = updateFirst P f (filter K bs)"
  using assms(1) by (induction bs) (auto simp: assms(2))

lemma updateExisting_ids [simp]: "map bookId (updateExisting h s M) = map bookId M"
  by (simp add: updateExisting_def)

lemma updateExisting_files [simp]: "map bookFile (updateExisting h s M) = map bookFile M"
  by (simp add: updateExisting_def)

lemma updateExisting_absorb:
  "h (scanPath s) = h (scanPath s') \<Longrightarrow>
     updateExisting h s (updateExisting h s' M) = updateExisting h s M"
  unfolding updateExisting_def by (simp add: updateFirst_absorb)

lemma updateExisting_commute:
  "h (scanPath s) \<noteq> h (scanPath s') \<Longrightarrow>
     updateExisting h s (updateExisting h s' M) = updateExisting h s' (updateExisting h s M)"
  unfolding updateExisting_def by (rule updateFirst_commute) auto

lemma fold_updateExisting_ids [simp]: "map bookId (fold (updateExisting h) S M) = map bookId M"
  by (induction S arbitrary: M) simp_all

lemma fold_updateExisting_files [simp]:
  "map bookFile (fold (updateExisting h) S M) = map bookFile M"
  by (induction S arbitrary: M) simp_all

lemma updateExisting_through:
  "updateExisting h s (fold (updateExisting h) T (updateExisting h s X))
   = updateExisting h s (fold (updateExisting h) T X)"
proof (induction T arbitrary: X)
  case Nil
  show ?case by (simp add: updateExisting_absorb)
next
  case (Cons t T)
  show ?case
  proof (cases "h (scanPath t) = h (scanPath s)")
    case True
    then show ?thesis by (simp add: updateExisting_absorb)
  next
    case False
    then have "updateExisting h t (updateExisting h s X)
               = updateExisting h s (updateExisting h t X)"
      by (rule updateExisting_commute)
    then show ?thesis using Cons.IH [of "updateExisting h t X"] by simp
  qed
qed

lemma fold_updateExisting_idem:
  "fold (updateExisting h) S (fold (updateExisting h) S M) = fold (updateExisting h) S M"
proof (induction S rule: rev_induct)
  case Nil
  show ?case by simp
next
  case (snoc s S)
  let ?Y = "fold (updateExisting h) S M"
  have "fold (updateExisting h) (S @ [s]) (fold (updateExisting h) (S @ [s]) M)
        = updateExisting h s (fold (updateExisting h) S (updateExisting h s ?Y))"
    by simp
  also have "\<dots> = updateExisting h s (fold (updateExisting h) S ?Y)"
    by (rule updateExisting_through)
  also have "\<dots> = updateExisting h s ?Y"
    by (simp only: snoc.IH)
  finally show ?case by simp
qed

lemma updateExisting_append:
  "updateExisting h s (xs @ ys)
   = (if h (scanPath s) \<in> set (map bookId xs) then updateExisting h s xs @ ys
      else xs @ updateExisting h s ys)"
  unfolding updateExisting_def updateFirst_append by (auto simp: image_iff)

lemma fold_addOrUpdate_as_updates:
  "\<exists>N. fold (addOrUpdateScanned h clock) S L = fold (updateExisting h) S (L @ N)
       \<and> (\<forall>b \<in> set N. bookFile b \<in> scanPath ` set S)
       \<and> (\<lambda>s. h (scanPath s)) ` set S \<subseteq> set (map bookId (L @ N))"
proof (induction S arbitrary: L)
  case Nil
  show ?case by (intro exI [of _ "[]"]) simp
next
  case (Cons s S)
  show ?case
  proof (cases "h (scanPath s) \<in> set (map bookId L)")
    case True
    then have step: "addOrUpdateScanned h clock s L = updateExisting h s L"
      by (auto simp: addOrUpdateScanned_def image_iff)
    from Cons.IH [of "updateExisting h s L"] obtain N where
      N: "fold (addOrUpdateScanned h clock) S (updateExisting h s L)
            = fold (updateExisting h) S (updateExisting h s L @ N)"
         "\<forall>b \<in> set N. bookFile b \<in> scanPath ` set S"
         "(\<lambda>s. h (scanPath s)) ` set S \<subseteq> set (map bookId (updateExisting h s L @ N))"
      by blast
    have "fold (addOrUpdateScanned h clock) (s # S) L
          = fold (updateExisting h) (s # S) (L @ N)"
      using True N(1) by (simp add: step updateExisting_append)
    moreover have "\<forall>b \<in> set N. bookFile b \<in> scanPath ` set (s # S)"
      using N(2) by auto
    moreover have "(\<lambda>s. h (scanPath s)) ` set (s # S) \<subseteq> set (map bookId (L @ N))"
      using True N(3) by auto
    ultimately show ?thesis by blast
  next
    case False
    then have step: "addOrUpdateScanned h clock s L = L @ [newEntry h clock s]"
      by (auto simp: addOrUpdateScanned_def image_iff)
    from Cons.IH [of "L @ [newEntry h clock s]"] obtain N where
      N: "fold (addOrUpdateScanned h clock) S (L @ [newEntry h clock s])
            = fold (updateExisting h) S ((L @ [newEntry h clock s]) @ N)"
         "\<forall>b \<in> set N. bookFile b \<in> scanPath ` set S"
         "(\<lambda>s. h (scanPath s)) ` set S \<subseteq> set (map bookId ((L @ [newEntry h clock s]) @ N))"
      by blast
    have "updateExisting h s (newEntry h clock s # N) = newEntry h clock s # N"
      by (simp add: updateExisting_def)
    then have "updateExisting h s (L @ newEntry h clock s # N) = L @ newEntry h clock s # N"
      using False by (simp add: updateExisting_append)
    then have "fold (addOrUpdateScanned h clock) (s # S) L
          = fold (updateExisting h) (s # S) (L @ newEntry h clock s # N)"
      using N(1) by (simp add: step)
    moreover have "\<forall>b \<in> set (newEntry h clock s # N). bookFile b \<in> scanPath ` set (s # S)"
      using N(2) by auto
    moreover have "(\<lambda>s. h (scanPath s)) ` set (s # S)
                   \<subseteq> set (map bookId (L @ newEntry h clock s # N))"
      using N(3) by auto
    ultimately show ?thesis by blast
  qed
qed

lemma fold_addOrUpdate_present:
  assumes "(\<lambda>s. h (scanPath s)) ` set S \<subseteq> set (map bookId R)"
  shows "fold (addOrUpdateScanned h clock) S R = fold (updateExisting h) S R"
  using assms
proof (induction S arbitrary: R)
  case Nil
  show ?case by simp
next
  case (Cons s S)
  then have "h (scanPath s) \<in> set (map bookId R)" by auto
  then have step: "addOrUpdateScanned h clock s R = updateExisting h s R"
    by (auto simp: addOrUpdateScanned_def image_iff)
  have "(\<lambda>s. h (scanPath s)) ` set S \<subseteq> set (map bookId (updateExisting h s R))"
    using Cons.prems by simp
  from Cons.IH [OF this] show ?case by (simp add: step)
qed

lemma filter_updateExisting:
  assumes "\<And>b. b \<in> set M \<Longrightarrow> bookId b = h (scanPath s) \<Longrightarrow> bookFile b \<in> A"
  shows "filter (\<lambda>b. bookFile b \<in> A) (updateExisting h s M)
         = updateExisting h s (filter (\<lambda>b. bookFile b \<in> A) M)"
  unfolding updateExisting_def
  by (rule updateFirst_filter) (simp_all add: assms)

lemma filter_fold_updateExisting:
  assumes "\<And>b s. b \<in> set M \<Longrightarrow> s \<in> set S \<Longrightarrow> bookId b = h (scanPath s) \<Longrightarrow> bookFile b \<in> A"
  shows "filter (\<lambda>b. bookFile b \<in> A) (fold (updateExisting h) S M)
         = fold (updateExisting h) S (filter (\<lambda>b. bookFile b \<in> A) M)"
  using assms
proof (induction S arbitrary: M)
  case Nil
  show ?case by simp
next
  case (Cons s S)
  have inv: "bookFile b \<in> A"
    if "b \<in> set (updateExisting h s M)" "t \<in> set S" "bookId b = h (scanPath t)" for b t
  proof -
    from that(1) obtain b' where "b' \<in> set M" "bookId b = bookId b'" "bookFile b = bookFile b'"
      unfolding updateExisting_def
      using updateFirst_set [of "refreshEntry s" b "\<lambda>b. bookId b = h (scanPath s)" M] by auto
    then show ?thesis using Cons.prems [of b' t] that(2,3) by simp
  qed
  have "filter (\<lambda>b. bookFile b \<in> A) (fold (updateExisting h) (s # S) M)
        = fold (updateExisting h) S (filter (\<lambda>b. bookFile b \<in> A) (updateExisting h s M))"
    using Cons.IH [OF inv] by simp
  also have "filter (\<lambda>b. bookFile b \<in> A) (updateExisting h s M)
             = updateExisting h s (filter (\<lambda>b. bookFile b \<in> A) M)"
    by (rule filter_updateExisting) (use Cons.prems in auto)
  finally show ?case by simp
qed

lemma viewLibrary_books:
  "books (viewLibrary h clock scanRoot S lib)
   = filter (\<lambda>b. bookFile b \<in> scanPath ` set S) (fold (addOrUpdateScanned h clock) S (books lib))"
proof -
  have "(\<lambda>book. \<exists>s \<in> set S. scanPath s = bookFile book) = (\<lambda>b. bookFile b \<in> scanPath ` set S)"
    by (rule ext) force
  then have "filter (\<lambda>book. \<exists>s \<in> set S. scanPath s = bookFile book) xs
             = filter (\<lambda>b. bookFile b \<in> scanPath ` set S) xs" for xs
    by (rule arg_cong)
  then show ?thesis unfolding viewLibrary_def by simp
qed

lemma addOrUpdate_distinct:
  assumes "distinct (map bookId L)"
  shows "distinct (map bookId (fold (addOrUpdateScanned h clock) S L))"
  using assms
proof (induction S arbitrary: L)
  case Nil
  then show ?case by simp
next
  case (Cons s S)
  have "distinct (map bookId (addOrUpdateScanned h clock s L))"
    using Cons.prems by (auto simp: addOrUpdateScanned_def image_iff)
  from Cons.IH [OF this] show ?case by simp
qed

lemma scan_keeps_scanned_ids:
  assumes noMove: "\<And>b s. b \<in> set (books lib) \<Longrightarrow> s \<in> set S \<Longrightarrow> bookId b = h (scanPath s)
                      \<Longrightarrow> bookFile b \<in> scanPath ` set S"
  shows "(\<lambda>s. h (scanPath s)) ` set S \<subseteq> set (map bookId (books (viewLibrary h clock scanRoot S lib)))"
    and "viewLibrary h clock' scanRoot S (viewLibrary h clock scanRoot S lib)
         = viewLibrary h clock scanRoot S lib"
proof -
  let ?A = "scanPath ` set S"
  let ?K = "\<lambda>b. bookFile b \<in> ?A"
  obtain N where N: "fold (addOrUpdateScanned h clock) S (books lib)
                       = fold (updateExisting h) S (books lib @ N)"
      "\<forall>b \<in> set N. bookFile b \<in> ?A"
      "(\<lambda>s. h (scanPath s)) ` set S \<subseteq> set (map bookId (books lib @ N))"
    using fold_addOrUpdate_as_updates [of h clock S "books lib"] by blast
  let ?M = "books lib @ N"
  have cond: "bookFile b \<in> ?A" if "b \<in> set ?M" "s \<in> set S" "bookId b = h (scanPath s)" for b s
    using that noMove [of b s] N(2) by auto
  have R1: "books (viewLibrary h clock scanRoot S lib) = fold (updateExisting h) S (filter ?K ?M)"
    unfolding viewLibrary_books N(1)
    by (rule filter_fold_updateExisting) (rule cond)
  have present: "(\<lambda>s. h (scanPath s)) ` set S \<subseteq> set (map bookId (filter ?K ?M))"
  proof
    fix k assume "k \<in> (\<lambda>s. h (scanPath s)) ` set S"
    then obtain s where s: "s \<in> set S" "k = h (scanPath s)" by auto
    with N(3) have "k \<in> set (map bookId ?M)" by blast
    then obtain b where b: "b \<in> set ?M" "bookId b = k" by auto
    with s cond [of b s] have "?K b" by simp
    with b show "k \<in> set (map bookId (filter ?K ?M))" by (auto simp: image_iff)
  qed
  show ids: "(\<lambda>s. h (scanPath s)) ` set S
             \<subseteq> set (map bookId (books (viewLibrary h clock scanRoot S lib)))"
    unfolding R1 using present by simp
  have "fold (addOrUpdateScanned h clock') S (books (viewLibrary h clock scanRoot S lib))
        = fold (updateExisting h) S (books (viewLibrary h clock scanRoot S lib))"
    by (rule fold_addOrUpdate_present [OF ids])
  also have "\<dots> = books (viewLibrary h clock scanRoot S lib)"
    unfolding R1 by (rule fold_updateExisting_idem)
  finally have again: "fold (addOrUpdateScanned h clock') S (books (viewLibrary h clock scanRoot S lib))
                       = books (viewLibrary h clock scanRoot S lib)" .
  have "filter ?K (books (viewLibrary h clock scanRoot S lib)) = books (viewLibrary h clock scanRoot S lib)"
    unfolding viewLibrary_books by simp
  then have "books (viewLibrary h clock' scanRoot S (viewLibrary h clock scanRoot S lib))
             = books (viewLibrary h clock scanRoot S lib)"
    by (simp add: viewLibrary_books [of h clock' scanRoot S] again)
  then show "viewLibrary h clock' scanRoot S (viewLibrary h clock scanRoot S lib)
             = viewLibrary h clock scanRoot S lib"
    by (simp add: viewLibrary_def)
qed

lemma hashBook_shape:
  assumes "length (sha256Hex (fileBytes p)) = 64"
    and "set (sha256Hex (fileBytes p)) \<subseteq> set ''0123456789abcdef''"
  shows "length (hashBook sha256Hex fileBytes p) = 16"
    and "set (hashBook sha256Hex fileBytes p) \<subseteq> set ''0123456789abcdef''"
proof -
  show "length (hashBook sha256Hex fileBytes p) = 16"
    using assms(1) by (simp add: hashBook_def)
  have "set (take 16 (sha256Hex (fileBytes p))) \<subseteq> set (sha256Hex (fileBytes p))"
    by (rule set_take_subset)
  then show "set (hashBook sha256Hex fileBytes p) \<subseteq> set ''0123456789abcdef''"
    using assms(2) unfolding hashBook_def by (rule subset_trans)
qed

text \<open>
  The claim as stated fails. Two files with the same bytes get one entry, so the second
  path has none; and when a file with a catalogued identifier is found at a new path
  only, the scan drops its entry and the next scan of the same directory adds it again,
  so the two scans do not give the same catalog. (The digest function of the example
  is constant, as all its files have the same content.)
\<close>

theorem C6_scan_counterexample:
  "map bookFile (books (viewLibrary
       (hashBook (\<lambda>bytes. replicate 64 (CHR ''a'')) (\<lambda>filePath. ''PK''))
       (\<lambda>filePath. ''t1'') ''/books''
       [\<lparr> scanPath = ''/books/a.epub'', scanFormat = Epub, scanTitle = ''A'', scanAuthor = ''X'',
          scanCoverUrl = None, scanDescription = None,
          scanPageCount = None \<rparr>,
        \<lparr> scanPath = ''/books/b.epub'', scanFormat = Epub, scanTitle = ''A'', scanAuthor = ''X'',
          scanCoverUrl = None, scanDescription = None,
          scanPageCount = None \<rparr>]
       \<lparr> version = 1, bookPath = [], books = [], collections = [] \<rparr>)) = [''/books/a.epub'']
   \<and> books (viewLibrary
       (hashBook (\<lambda>bytes. replicate 64 (CHR ''a'')) (\<lambda>filePath. ''PK''))
       (\<lambda>filePath. ''t1'') ''/books''
       [\<lparr> scanPath = ''/books/new.epub'', scanFormat = Epub, scanTitle = ''A'', scanAuthor = ''X'',
          scanCoverUrl = None, scanDescription = None,
          scanPageCount = None \<rparr>]
       \<lparr> version = 1, bookPath = ''/books'',
         books = [\<lparr> bookId = replicate 16 (CHR ''a''), bookFile = ''/books/old.epub'',
                    bookTitle = ''A'', bookAuthor = ''X'', format = Epub, coverUrl = None,
                    description = None, chapterCount = None, addedAt = ''t0'',
                    bookLastRead = None \<rparr>],
         collections = [] \<rparr>) = []
   \<and> map bookFile (books (viewLibrary
       (hashBook (\<lambda>bytes. replicate 64 (CHR ''a'')) (\<lambda>filePath. ''PK''))
       (\<lambda>filePath. ''t2'') ''/books''
       [\<lparr> scanPath = ''/books/new.epub'', scanFormat = Epub, scanTitle = ''A'', scanAuthor = ''X'',
          scanCoverUrl = None, scanDescription = None,
          scanPageCount = None \<rparr>]
       (viewLibrary
         (hashBook (\<lambda>bytes. replicate 64 (CHR ''a'')) (\<lambda>filePath. ''PK''))
         (\<lambda>filePath. ''t1'') ''/books''
         [\<lparr> scanPath = ''/books/new.epub'', scanFormat = Epub, scanTitle = ''A'', scanAuthor = ''X'',
            scanCoverUrl = None, scanDescription = None,
          scanPageCount = None \<rparr>]
         \<lparr> version = 1, bookPath = ''/books'',
           books = [\<lparr> bookId = replicate 16 (CHR ''a''), bookFile = ''/books/old.epub'',
                      bookTitle = ''A'', bookAuthor = ''X'', format = Epub, coverUrl = None,
                      description = None, chapterCount = None, addedAt = ''t0'',
                      bookLastRead = None \<rparr>],
         collections = [] \<rparr>))) = [''/books/new.epub'']"
  by (simp add: viewLibrary_def addOrUpdateScanned_def updateExisting_def newEntry_def
        refreshEntry_def hashBook_def)

text \<open>
  C6 (amended). The identifier of a book is a function of the bytes of its file, and has
  16 hexadecimal characters when the digest has 64. After a scan every entry of the
  catalog lies at a scanned path, so entries whose paths are no longer present are
  removed; the scan adds no second entry for an identifier, so the identifiers stay
  distinct when they were. Provided no entry of the catalog that has the identifier of
  a scanned file lies at a path outside the scan, the identifier of every scanned file
  has an entry after the scan, and a second scan of the same files gives the same
  catalog.
\<close>

theorem C6_scan_reconciles:
  "(\<forall>p q. fileBytes p = fileBytes q \<longrightarrow>
       hashBook sha256Hex fileBytes p = hashBook sha256Hex fileBytes q)
   \<and> (\<forall>p. length (sha256Hex (fileBytes p)) = 64
          \<and> set (sha256Hex (fileBytes p)) \<subseteq> set ''0123456789abcdef''
       \<longrightarrow> length (hashBook sha256Hex fileBytes p) = 16
          \<and> set (hashBook sha256Hex fileBytes p) \<subseteq> set ''0123456789abcdef'')
   \<and> (\<forall>b \<in> set (books (viewLibrary (hashBook sha256Hex fileBytes) clock scanRoot scanned lib)).
        bookFile b \<in> scanPath ` set scanned)
   \<and> (distinct (map bookId (books lib)) \<longrightarrow>
        distinct (map bookId
          (books (viewLibrary (hashBook sha256Hex fileBytes) clock scanRoot scanned lib))))
   \<and> ((\<forall>b \<in> set (books lib). \<forall>s \<in> set scanned.
          bookId b = hashBook sha256Hex fileBytes (scanPath s)
          \<longrightarrow> bookFile b \<in> scanPath ` set scanned)
       \<longrightarrow> (\<forall>s \<in> set scanned. hashBook sha256Hex fileBytes (scanPath s)
                \<in> set (map bookId
                     (books (viewLibrary (hashBook sha256Hex fileBytes) clock scanRoot scanned lib))))
          \<and> viewLibrary (hashBook sha256Hex fileBytes) clock' scanRoot scanned
               (viewLibrary (hashBook sha256Hex fileBytes) clock scanRoot scanned lib)
             = viewLibrary (hashBook sha256Hex fileBytes) clock scanRoot scanned lib)"
proof (intro conjI allI impI ballI)
  fix p q assume "fileBytes p = fileBytes q"
  then show "hashBook sha256Hex fileBytes p = hashBook sha256Hex fileBytes q"
    by (simp add: hashBook_def)
next
  fix p
  assume a: "length (sha256Hex (fileBytes p)) = 64
          \<and> set (sha256Hex (fileBytes p)) \<subseteq> set ''0123456789abcdef''"
  show "length (hashBook sha256Hex fileBytes p) = 16"
    using a hashBook_shape(1) [of sha256Hex fileBytes p] by blast
  show "set (hashBook sha256Hex fileBytes p) \<subseteq> set ''0123456789abcdef''"
    using a hashBook_shape(2) [of sha256Hex fileBytes p] by blast
next
  fix b
  assume "b \<in> set (books (viewLibrary (hashBook sha256Hex fileBytes) clock scanRoot scanned lib))"
  then show "bookFile b \<in> scanPath ` set scanned"
    unfolding viewLibrary_books by simp
next
  assume "distinct (map bookId (books lib))"
  then show "distinct (map bookId
          (books (viewLibrary (hashBook sha256Hex fileBytes) clock scanRoot scanned lib)))"
    unfolding viewLibrary_books
    by (intro distinct_map_filter addOrUpdate_distinct)
next
  fix s
  assume noMove: "\<forall>b \<in> set (books lib). \<forall>s \<in> set scanned.
          bookId b = hashBook sha256Hex fileBytes (scanPath s)
          \<longrightarrow> bookFile b \<in> scanPath ` set scanned"
    and s: "s \<in> set scanned"
  have "(\<lambda>s. hashBook sha256Hex fileBytes (scanPath s)) ` set scanned
        \<subseteq> set (map bookId
             (books (viewLibrary (hashBook sha256Hex fileBytes) clock scanRoot scanned lib)))"
    by (rule scan_keeps_scanned_ids(1)) (use noMove in blast)
  with s show "hashBook sha256Hex fileBytes (scanPath s)
                \<in> set (map bookId
                     (books (viewLibrary (hashBook sha256Hex fileBytes) clock scanRoot scanned lib)))"
    by blast
next
  assume noMove: "\<forall>b \<in> set (books lib). \<forall>s \<in> set scanned.
          bookId b = hashBook sha256Hex fileBytes (scanPath s)
          \<longrightarrow> bookFile b \<in> scanPath ` set scanned"
  show "viewLibrary (hashBook sha256Hex fileBytes) clock' scanRoot scanned
               (viewLibrary (hashBook sha256Hex fileBytes) clock scanRoot scanned lib)
             = viewLibrary (hashBook sha256Hex fileBytes) clock scanRoot scanned lib"
    by (rule scan_keeps_scanned_ids(2)) (use noMove in blast)
qed

theorem C6_scan_reconciles_witness:
  "map bookId (books (viewLibrary
       (hashBook (\<lambda>bytes. bytes @ replicate (64 - length bytes) (CHR ''0''))
                 (\<lambda>filePath. if filePath = ''/books/a.epub'' then ''a1'' else ''b2''))
       (\<lambda>filePath. ''t1'') ''/books''
       [\<lparr> scanPath = ''/books/a.epub'', scanFormat = Epub, scanTitle = ''A'', scanAuthor = ''X'',
          scanCoverUrl = None, scanDescription = None,
          scanPageCount = None \<rparr>,
        \<lparr> scanPath = ''/books/b.pdf'', scanFormat = Pdf, scanTitle = ''B'', scanAuthor = ''Y'',
          scanCoverUrl = None, scanDescription = None,
          scanPageCount = None \<rparr>]
       \<lparr> version = 1, bookPath = [], books = [], collections = [] \<rparr>))
     = [''a1'' @ replicate 14 (CHR ''0''), ''b2'' @ replicate 14 (CHR ''0'')]
   \<and> viewLibrary
       (hashBook (\<lambda>bytes. bytes @ replicate (64 - length bytes) (CHR ''0''))
                 (\<lambda>filePath. if filePath = ''/books/a.epub'' then ''a1'' else ''b2''))
       (\<lambda>filePath. ''t2'') ''/books''
       [\<lparr> scanPath = ''/books/a.epub'', scanFormat = Epub, scanTitle = ''A'', scanAuthor = ''X'',
          scanCoverUrl = None, scanDescription = None,
          scanPageCount = None \<rparr>,
        \<lparr> scanPath = ''/books/b.pdf'', scanFormat = Pdf, scanTitle = ''B'', scanAuthor = ''Y'',
          scanCoverUrl = None, scanDescription = None,
          scanPageCount = None \<rparr>]
       (viewLibrary
         (hashBook (\<lambda>bytes. bytes @ replicate (64 - length bytes) (CHR ''0''))
                   (\<lambda>filePath. if filePath = ''/books/a.epub'' then ''a1'' else ''b2''))
         (\<lambda>filePath. ''t1'') ''/books''
         [\<lparr> scanPath = ''/books/a.epub'', scanFormat = Epub, scanTitle = ''A'', scanAuthor = ''X'',
            scanCoverUrl = None, scanDescription = None,
          scanPageCount = None \<rparr>,
          \<lparr> scanPath = ''/books/b.pdf'', scanFormat = Pdf, scanTitle = ''B'', scanAuthor = ''Y'',
            scanCoverUrl = None, scanDescription = None,
          scanPageCount = None \<rparr>]
         \<lparr> version = 1, bookPath = [], books = [], collections = [] \<rparr>)
     = viewLibrary
         (hashBook (\<lambda>bytes. bytes @ replicate (64 - length bytes) (CHR ''0''))
                   (\<lambda>filePath. if filePath = ''/books/a.epub'' then ''a1'' else ''b2''))
         (\<lambda>filePath. ''t1'') ''/books''
         [\<lparr> scanPath = ''/books/a.epub'', scanFormat = Epub, scanTitle = ''A'', scanAuthor = ''X'',
            scanCoverUrl = None, scanDescription = None,
          scanPageCount = None \<rparr>,
          \<lparr> scanPath = ''/books/b.pdf'', scanFormat = Pdf, scanTitle = ''B'', scanAuthor = ''Y'',
            scanCoverUrl = None, scanDescription = None,
          scanPageCount = None \<rparr>]
         \<lparr> version = 1, bookPath = [], books = [], collections = [] \<rparr>
   \<and> length (hashBook (\<lambda>bytes. bytes @ replicate (64 - length bytes) (CHR ''0''))
                 (\<lambda>filePath. if filePath = ''/books/a.epub'' then ''a1'' else ''b2'')
                 ''/books/a.epub'') = 16"
proof -
  let ?sha = "\<lambda>bytes. bytes @ replicate (64 - length bytes) (CHR ''0'')"
  let ?files = "\<lambda>filePath. if filePath = ''/books/a.epub'' then ''a1'' else ''b2''"
  let ?S = "[\<lparr> scanPath = ''/books/a.epub'', scanFormat = Epub, scanTitle = ''A'', scanAuthor = ''X'',
          scanCoverUrl = None, scanDescription = None,
          scanPageCount = None \<rparr>,
        \<lparr> scanPath = ''/books/b.pdf'', scanFormat = Pdf, scanTitle = ''B'', scanAuthor = ''Y'',
          scanCoverUrl = None, scanDescription = None,
          scanPageCount = None \<rparr>]"
  let ?lib = "\<lparr> version = 1, bookPath = [], books = [], collections = [] \<rparr>"
  note th = C6_scan_reconciles [of ?files ?sha "\<lambda>filePath. ''t1''" "''/books''" ?S ?lib
      "\<lambda>filePath. ''t2''"]
  have noMove: "\<forall>b \<in> set (books ?lib). \<forall>s \<in> set ?S.
          bookId b = hashBook ?sha ?files (scanPath s) \<longrightarrow> bookFile b \<in> scanPath ` set ?S"
    by simp
  from th noMove
  have again: "viewLibrary (hashBook ?sha ?files) (\<lambda>filePath. ''t2'') ''/books'' ?S
               (viewLibrary (hashBook ?sha ?files) (\<lambda>filePath. ''t1'') ''/books'' ?S ?lib)
             = viewLibrary (hashBook ?sha ?files) (\<lambda>filePath. ''t1'') ''/books'' ?S ?lib"
    by blast
  have ids: "map bookId (books (viewLibrary (hashBook ?sha ?files) (\<lambda>filePath. ''t1'') ''/books''
                 ?S ?lib)) = [''a1'' @ replicate 14 (CHR ''0''), ''b2'' @ replicate 14 (CHR ''0'')]"
    by (simp add: viewLibrary_def addOrUpdateScanned_def updateExisting_def newEntry_def
          refreshEntry_def hashBook_def)
  have digest: "length (?sha (?files ''/books/a.epub'')) = 64
                \<and> set (?sha (?files ''/books/a.epub'')) \<subseteq> set ''0123456789abcdef''"
    by simp
  from th digest have shape: "length (hashBook ?sha ?files ''/books/a.epub'') = 16"
    by blast
  show ?thesis using again ids shape by simp
qed

end
